theory Spec2Isabelle
  imports Main
begin

section \<open>JavaScript values of the radial cellular automaton\<close>

text \<open>
  The sketch exists in two versions: \<open>radial.js\<close> (one constant expansion interval) and
  a later one (one expansion interval per ring transition, with a divisor based planner).
  Both share \<open>generateNextRing\<close>, \<open>rules\<close>, the parsing of the controls and the
  pre-calculation of a ring's structure.

  A cell, a ruleset entry and an entry of the interval array hold a JavaScript number, \<open>NaN\<close>
  (what \<open>parseInt\<close> gives on a text without a leading digit) or \<open>undefined\<close> (what a read
  outside an array gives). The numbers that occur are integers far below \<open>2^53\<close>, so
  they are modelled as \<open>int\<close>; \<open>-0\<close>, which \<open>parseInt\<close> gives on \<open>"-0"\<close>, behaves
  as \<open>0\<close> in every operation used here (\<open>=== 0\<close>, the conversion to the text \<open>"0"\<close>,
  \<open>||\<close>) and is modelled as \<open>0\<close>. A global that holds the result of \<open>parseInt\<close>
  is an \<open>int option\<close>, with \<open>None\<close> for \<open>NaN\<close>.
\<close>

datatype jsval = Num int | NaN | Undefined

datatype error = RangeError | TypeError

text \<open>\<open>xs[i]\<close>: a read outside the array gives \<open>undefined\<close>.\<close>

definition jsGet :: "jsval list \<Rightarrow> int \<Rightarrow> jsval" where
  "jsGet xs i = (if 0 \<le> i \<and> i < int (length xs) then xs ! nat i else Undefined)"

text \<open>The decimal text of a number, as the string concatenation \<open>"" + a\<close> produces it.\<close>

fun decimal :: "nat \<Rightarrow> string" where
  "decimal n = (if n < 10 then [''0123456789'' ! n]
                else decimal (n div 10) @ [''0123456789'' ! (n mod 10)])"

declare decimal.simps [simp del]

definition toStr :: "jsval \<Rightarrow> string" where
  "toStr v = (case v of
      Num n \<Rightarrow> (if n < 0 then CHR ''-'' # decimal (nat (- n)) else decimal (nat n))
    | NaN \<Rightarrow> ''NaN''
    | Undefined \<Rightarrow> ''undefined'')"

text \<open>
  \<open>parseInt(s, radix)\<close> for radix 2 and 10: leading white space is skipped, one sign is read,
  then the longest run of digits of the radix; no digit gives \<open>NaN\<close> (here \<open>None\<close>).
  With the radix left out (\<open>parseInt(s)\<close>) a prefix \<open>0x\<close> or \<open>0X\<close> selects radix 16.
  A text is the list of its code units, all taken to be below 256; the white space among
  them is the space, the controls 9 to 13 and the no-break space.
\<close>

definition isSpace :: "char \<Rightarrow> bool" where
  "isSpace c =
     (c \<in> set [CHR '' '', CHR 0x09, CHR 0x0A, CHR 0x0B, CHR 0x0C, CHR 0x0D, CHR 0xA0])"

definition digitVal :: "char \<Rightarrow> nat option" where
  "digitVal c = map_of
     [(CHR ''0'', 0), (CHR ''1'', 1), (CHR ''2'', 2), (CHR ''3'', 3), (CHR ''4'', 4),
      (CHR ''5'', 5), (CHR ''6'', 6), (CHR ''7'', 7), (CHR ''8'', 8), (CHR ''9'', 9),
      (CHR ''a'', 10), (CHR ''b'', 11), (CHR ''c'', 12), (CHR ''d'', 13), (CHR ''e'', 14),
      (CHR ''f'', 15),
      (CHR ''A'', 10), (CHR ''B'', 11), (CHR ''C'', 12), (CHR ''D'', 13), (CHR ''E'', 14),
      (CHR ''F'', 15)] c"

definition isDigit :: "nat \<Rightarrow> char \<Rightarrow> bool" where
  "isDigit radix c = (case digitVal c of None \<Rightarrow> False | Some d \<Rightarrow> d < radix)"

definition digitsValue :: "nat \<Rightarrow> string \<Rightarrow> nat" where
  "digitsValue radix ds = foldl (\<lambda>acc c. radix * acc + the (digitVal c)) 0 ds"

definition parseDigits :: "nat \<Rightarrow> bool \<Rightarrow> string \<Rightarrow> int option" where
  "parseDigits radix neg s =
     (let ds = takeWhile (isDigit radix) s
      in if ds = [] then None
         else Some (if neg then - int (digitsValue radix ds) else int (digitsValue radix ds)))"

definition stripSign :: "string \<Rightarrow> bool \<times> string" where
  "stripSign s = (case s of
      c # r \<Rightarrow> (if c = CHR ''-'' then (True, r) else if c = CHR ''+'' then (False, r)
                else (False, s))
    | [] \<Rightarrow> (False, s))"

definition parseIntRadix :: "nat \<Rightarrow> string \<Rightarrow> int option" where
  "parseIntRadix radix s =
     (let (neg, r) = stripSign (dropWhile isSpace s) in parseDigits radix neg r)"

definition parseInt :: "string \<Rightarrow> int option" where
  "parseInt s =
     (let (neg, r) = stripSign (dropWhile isSpace s)
      in if take 2 r = ''0x'' \<or> take 2 r = ''0X'' then parseDigits 16 neg (drop 2 r)
         else parseDigits 10 neg r)"

definition numOf :: "int option \<Rightarrow> jsval" where
  "numOf r = (case r of None \<Rightarrow> NaN | Some n \<Rightarrow> Num n)"

section \<open>The rule engine\<close>

text \<open>
  \<open>rules(a, b, c)\<close> concatenates the three cells into a text, reads it as a binary number
  and returns \<open>ruleset[7 - index]\<close>. When the text does not start with a binary digit the
  index is \<open>NaN\<close>, and so is \<open>7 - index\<close>: the array has no such property and the result is
  \<open>undefined\<close>. The global \<open>ruleset\<close> is the first argument.
\<close>

definition rules :: "jsval list \<Rightarrow> jsval \<Rightarrow> jsval \<Rightarrow> jsval \<Rightarrow> jsval" where
  "rules rs a b c =
     (let s = toStr a @ toStr b @ toStr c
      in case parseIntRadix 2 s of
           None \<Rightarrow> Undefined
         | Some index \<Rightarrow> jsGet rs (7 - index))"

section \<open>Numbers and arrays\<close>

text \<open>
  \<open>a % b\<close> takes the sign of the dividend; \<open>a % 0\<close> is \<open>NaN\<close> (here \<open>None\<close>).
\<close>

definition jsMod :: "int \<Rightarrow> int \<Rightarrow> int option" where
  "jsMod a b = (if b = 0 then None
                else Some (if a < 0 then - ((- a) mod \<bar>b\<bar>) else a mod \<bar>b\<bar>))"

text \<open>
  \<open>floor(a / b)\<close>. A division by 0 raises nothing in JavaScript: it gives \<open>NaN\<close>,
  \<open>Infinity\<close> or \<open>-Infinity\<close>, and so does the \<open>floor\<close> of it; \<open>None\<close> stands
  for these three. Otherwise the quotient of two integers below \<open>2^53\<close> is floored
  exactly, and \<open>div\<close> on \<open>int\<close> is the floored division.
\<close>

definition floorDiv :: "int \<Rightarrow> int \<Rightarrow> int option" where
  "floorDiv a b = (if b = 0 then None else Some (a div b))"

text \<open>
  \<open>new Array(n).fill(v)\<close> and \<open>new Array(n)\<close> (whose empty slots read as \<open>undefined\<close>):
  a negative length raises \<open>RangeError: Invalid array length\<close>. The upper limit
  \<open>2^32 - 1\<close> of an array length is not modelled.
\<close>

definition newArray :: "int \<Rightarrow> 'a \<Rightarrow> error + 'a list" where
  "newArray n v = (if n < 0 then Inl RangeError else Inr (replicate (nat n) v))"

text \<open>\<open>xs[i]\<close> where the index is the result of \<open>%\<close>: \<open>xs[NaN]\<close> is \<open>undefined\<close>.\<close>

definition jsGetOpt :: "jsval list \<Rightarrow> int option \<Rightarrow> jsval" where
  "jsGetOpt xs j = (case j of None \<Rightarrow> Undefined | Some i \<Rightarrow> jsGet xs i)"

text \<open>\<open>xs[i] = v\<close>: a write past the end extends the array, leaving empty slots.\<close>

definition jsSet :: "jsval list \<Rightarrow> nat \<Rightarrow> jsval \<Rightarrow> jsval list" where
  "jsSet xs i v = (if i < length xs then xs[i := v]
                   else xs @ replicate (i - length xs) Undefined @ [v])"

text \<open>\<open>v || d\<close>: \<open>0\<close>, \<open>NaN\<close> and \<open>undefined\<close> are falsy.\<close>

definition falsy :: "jsval \<Rightarrow> bool" where
  "falsy v = (v = Num 0 \<or> v = NaN \<or> v = Undefined)"

definition orElse :: "jsval \<Rightarrow> jsval \<Rightarrow> jsval" where
  "orElse v d = (if falsy v then d else v)"

text \<open>\<open>xs.slice(0, e)\<close>: a negative end counts from the end of the array.\<close>

definition slice0 :: "'a list \<Rightarrow> int \<Rightarrow> 'a list" where
  "slice0 xs e =
     (let n = int (length xs);
          k = (if e < 0 then max (n + e) 0 else min e n)
      in take (nat k) xs)"

text \<open>\<open>nextExpansions[i]\<close> used as a condition: an \<open>undefined\<close> entry is falsy.\<close>

definition maskAt :: "bool list \<Rightarrow> nat \<Rightarrow> bool" where
  "maskAt xs i = (i < length xs \<and> xs ! i)"

definition bindE :: "error + 'a \<Rightarrow> ('a \<Rightarrow> error + 'b) \<Rightarrow> error + 'b" where
  "bindE m f = (case m of Inl e \<Rightarrow> Inl e | Inr x \<Rightarrow> f x)"

text \<open>
  \<open>a < b\<close> and \<open>a >= b\<close> where \<open>b\<close> may be \<open>NaN\<close>: every comparison with \<open>NaN\<close>
  is false. \<open>b - 1\<close> is \<open>NaN\<close> when \<open>b\<close> is.
\<close>

definition lessNum :: "int \<Rightarrow> int option \<Rightarrow> bool" where
  "lessNum a b = (case b of None \<Rightarrow> False | Some y \<Rightarrow> a < y)"

definition geNum :: "int \<Rightarrow> int option \<Rightarrow> bool" where
  "geNum a b = (case b of None \<Rightarrow> False | Some y \<Rightarrow> y \<le> a)"

definition minusOne :: "int option \<Rightarrow> int option" where
  "minusOne b = (case b of None \<Rightarrow> None | Some y \<Rightarrow> Some (y - 1))"

section \<open>The structure of a ring\<close>

text \<open>
  The body of the pre-calculation loop of \<open>initializeSimulation\<close>, the same in both
  versions: from the previous ring's length and the expansion interval it allocates the
  new ring (its cells still empty) and marks the expansion cells.
  \<^verbatim>\<open>
    let expansionCount = floor(prevCount / expansionInterval);
    let newCount = prevCount + expansionCount;
    rings[r] = new Array(newCount);
    expansionMap[r] = new Array(newCount).fill(false);
    for (let i = 0; i < newCount; i++) {
      if (i % (expansionInterval + 1) === expansionInterval) { expansionMap[r][i] = true; }
    }
  \<close>
  With interval 0 the count is not finite and \<open>new Array\<close> raises.
\<close>

definition ringStructure :: "nat \<Rightarrow> int \<Rightarrow> error + (jsval list \<times> bool list)" where
  "ringStructure prevCount expansionInterval =
     (case floorDiv (int prevCount) expansionInterval of
        None \<Rightarrow> Inl RangeError
      | Some expansionCount \<Rightarrow>
          (let newCount = int prevCount + expansionCount
           in bindE (newArray newCount Undefined) (\<lambda>cells.
              bindE (newArray newCount False) (\<lambda>blank.
              Inr (cells,
                   map (\<lambda>i. jsMod (int i) (expansionInterval + 1) = Some expansionInterval)
                     [0..<length blank])))))"

text \<open>
  The same body when the interval may be \<open>NaN\<close>: then \<open>floor(prevCount / NaN)\<close> and
  the new count are \<open>NaN\<close>, and \<open>new Array(NaN)\<close> raises the same \<open>RangeError\<close>.
\<close>

definition ringStructureOf :: "nat \<Rightarrow> int option \<Rightarrow> error + (jsval list \<times> bool list)" where
  "ringStructureOf prevCount expansionInterval =
     (case expansionInterval of
        None \<Rightarrow> Inl RangeError
      | Some k \<Rightarrow> ringStructure prevCount k)"

text \<open>
  The loop \<open>for (let r = 1; r < numRings; r++)\<close>. It starts with \<open>rings = [rings[0]]\<close>
  and \<open>r = 1\<close>, and every pass writes \<open>rings[r]\<close> and \<open>expansionMap[r]\<close> at the
  end of the arrays. The interval of a pass is given by \<open>intervalFor\<close>, from the previous
  ring's length and \<open>r\<close>: this is where the two versions differ. With \<open>numRings\<close>
  \<open>NaN\<close> the loop does not run.
\<close>

function structureLoop ::
  "int option \<Rightarrow> (nat \<Rightarrow> nat \<Rightarrow> int option) \<Rightarrow> nat \<Rightarrow> jsval list list \<Rightarrow> bool list list \<Rightarrow>
   error + (jsval list list \<times> bool list list)" where
  "structureLoop numRings intervalFor r rings emap =
     (if lessNum (int r) numRings then
        (let prevCount = length (rings ! (r - 1))
         in case ringStructureOf prevCount (intervalFor r prevCount) of
              Inl e \<Rightarrow> Inl e
            | Inr (cells, marks) \<Rightarrow>
                structureLoop numRings intervalFor (r + 1) (rings @ [cells]) (emap @ [marks]))
      else Inr (rings, emap))"
  by pat_completeness auto
termination
  by (relation "measure (\<lambda>(numRings, intervalFor, r, rings, emap).
                  case numRings of None \<Rightarrow> 0 | Some n \<Rightarrow> nat (n - int r))")
     (auto simp: lessNum_def split: option.splits)

declare structureLoop.simps [simp del]

text \<open>Ring 0: the initial pattern cut to \<open>initialCellCount\<close> and padded with zeros.
  \<^verbatim>\<open>
    rings[0] = initialPattern.slice(0, initialCellCount);
    while (rings[0].length < initialCellCount) { rings[0].push(0); }
  \<close>\<close>

definition firstRing :: "jsval list \<Rightarrow> int \<Rightarrow> jsval list" where
  "firstRing initialPattern initialCellCount =
     (let ring0 = slice0 initialPattern initialCellCount
      in ring0 @ replicate (nat (initialCellCount - int (length ring0))) (Num 0))"

section \<open>Generating the next ring\<close>

text \<open>
  One pass of the loop of \<open>generateNextRing\<close> on the loop state \<open>(i, prevIndex, nextCells)\<close>.
\<close>

definition genBody ::
  "jsval list \<Rightarrow> jsval list \<Rightarrow> bool list \<Rightarrow> nat \<times> nat \<times> jsval list \<Rightarrow> nat \<times> nat \<times> jsval list" where
  "genBody rs currentCells nextExpansions st =
     (case st of (i, prevIndex, nextCells) \<Rightarrow>
        if maskAt nextExpansions i then
          (if prevIndex > 0
           then (i + 1, prevIndex, nextCells[i := jsGet currentCells (int prevIndex - 1)])
           else (i + 1, prevIndex,
                 nextCells[i := jsGet currentCells (int (length currentCells) - 1)]))
        else
          (let n = int (length currentCells);
               left = jsGetOpt currentCells (jsMod (int prevIndex - 1 + n) n);
               center = jsGet currentCells (int prevIndex);
               right = jsGetOpt currentCells (jsMod (int prevIndex + 1) n)
           in (i + 1, prevIndex + 1, nextCells[i := rules rs left center right])))"

function genLoop ::
  "jsval list \<Rightarrow> jsval list \<Rightarrow> bool list \<Rightarrow> nat \<times> nat \<times> jsval list \<Rightarrow> nat \<times> nat \<times> jsval list" where
  "genLoop rs currentCells nextExpansions (i, prevIndex, nextCells) =
     (if i < length nextCells
      then genLoop rs currentCells nextExpansions
             (genBody rs currentCells nextExpansions (i, prevIndex, nextCells))
      else (i, prevIndex, nextCells))"
  by pat_completeness auto
termination
  by (relation "measure (\<lambda>(rs, cur, marks, i, p, nxt). length nxt - i)")
     (auto simp: genBody_def Let_def)

declare genLoop.simps [simp del]

section \<open>The state of the sketch\<close>

text \<open>
  The global variables that the generation reads and writes. The two versions differ in one
  variable: \<open>expansionInterval\<close> (a number) in \<open>radial.js\<close>, \<open>expansionIntervals\<close>
  (an array) in the later version. The three numbers come from \<open>parseInt\<close> and may be
  \<open>NaN\<close>. Colours, radii and the canvas are left out.
\<close>

record sim =
  initialCellCount :: "int option"
  numRings :: "int option"
  ruleset :: "jsval list"
  initialPattern :: "jsval list"
  rings :: "jsval list list"
  expansionMap :: "bool list list"
  currentRing :: nat

record simC = sim +
  expansionInterval :: "int option"

record simV = sim +
  expansionIntervals :: "jsval list"

text \<open>
  \<open>generateNextRing(ringIndex)\<close> fills \<open>rings[ringIndex + 1]\<close> in place. Reading
  \<open>.length\<close> or an element of a missing array raises a \<open>TypeError\<close>.
\<close>

definition generateNextRing :: "nat \<Rightarrow> 'a sim_scheme \<Rightarrow> error + 'a sim_scheme" where
  "generateNextRing ringIndex s =
     (if \<not> ringIndex + 1 < length (rings s) then Inl TypeError
      else
        (let currentCells = rings s ! ringIndex;
             nextCells = rings s ! (ringIndex + 1)
         in if \<not> ringIndex + 1 < length (expansionMap s) \<and> nextCells \<noteq> [] then Inl TypeError
            else
              (let nextExpansions =
                     (if ringIndex + 1 < length (expansionMap s)
                      then expansionMap s ! (ringIndex + 1) else []);
                   final = genLoop (ruleset s) currentCells nextExpansions (0, 0, nextCells)
               in Inr (s\<lparr>rings := (rings s)[ringIndex + 1 := snd (snd final)]\<rparr>))))"

text \<open>
  \<open>draw()\<close> without the drawing: it checks whether the run is over, reads the current ring
  (and, beyond ring 0, its expansion marks, for the radial lines), generates the next ring
  when there is one and advances \<open>currentRing\<close>.
\<close>

definition draw :: "'a sim_scheme \<Rightarrow> error + 'a sim_scheme" where
  "draw s =
     (if geNum (int (currentRing s)) (numRings s) then Inr s
      else if \<not> currentRing s < length (rings s) then Inl TypeError
      else if 0 < currentRing s \<and> rings s ! currentRing s \<noteq> []
              \<and> \<not> currentRing s < length (expansionMap s) then Inl TypeError
      else bindE (if lessNum (int (currentRing s)) (minusOne (numRings s))
                  then generateNextRing (currentRing s) s else Inr s)
             (\<lambda>s'. Inr (s'\<lparr>currentRing := currentRing s' + 1\<rparr>)))"

text \<open>
  p5 calls \<open>draw\<close> once per frame until \<open>draw\<close> calls \<open>noLoop()\<close>, which it does when
  \<open>currentRing >= numRings\<close>; an exception ends the run. With \<open>numRings\<close> \<open>NaN\<close>
  that test never holds, and the frames go on until the read of a missing ring raises.
\<close>

function drawLoop :: "'a sim_scheme \<Rightarrow> error + 'a sim_scheme" where
  "drawLoop s =
     (if geNum (int (currentRing s)) (numRings s) then draw s
      else case draw s of Inl e \<Rightarrow> Inl e | Inr s' \<Rightarrow> drawLoop s')"
  by pat_completeness auto
termination
proof (relation "measure (\<lambda>s. case numRings s of
                             None \<Rightarrow> length (rings s) - currentRing s
                           | Some n \<Rightarrow> nat (n - int (currentRing s)))")
  show "wf (measure (\<lambda>s :: 'a sim_scheme. case numRings s of
                             None \<Rightarrow> length (rings s) - currentRing s
                           | Some n \<Rightarrow> nat (n - int (currentRing s))))"
    by simp
next
  fix s s' :: "'a sim_scheme"
  assume run: "\<not> geNum (int (currentRing s)) (numRings s)" and ok: "draw s = Inr s'"
  show "(s', s) \<in> measure (\<lambda>s. case numRings s of
                             None \<Rightarrow> length (rings s) - currentRing s
                           | Some n \<Rightarrow> nat (n - int (currentRing s)))"
  proof (cases "numRings s")
    case None
    then have "s' = s\<lparr>currentRing := currentRing s + 1\<rparr> \<and> currentRing s < length (rings s)"
      using ok
      by (auto simp: draw_def bindE_def geNum_def lessNum_def minusOne_def split: if_splits)
    then show ?thesis using None by auto
  next
    case (Some n)
    from ok run Some have "numRings s' = Some n \<and> currentRing s' = currentRing s + 1"
      by (auto simp: draw_def bindE_def generateNextRing_def Let_def geNum_def
          split: if_splits sum.splits)
    then show ?thesis using run Some by (simp add: geNum_def)
  qed
qed

declare drawLoop.simps [simp del]

section \<open>The version with one constant interval\<close>

text \<open>
  The start of \<open>initializeSimulation\<close>, the same in both versions: the arrays are reset
  and ring 0 and its marks are built. With \<open>initialCellCount\<close> \<open>NaN\<close> the slice is
  empty, nothing is padded and \<open>new Array(NaN)\<close> raises.
  \<^verbatim>\<open>
    currentRing = 0; rings = []; expansionMap = [];
    rings[0] = initialPattern.slice(0, initialCellCount);
    while (rings[0].length < initialCellCount) { rings[0].push(0); }
    expansionMap[0] = new Array(initialCellCount).fill(false);
  \<close>
\<close>

definition startRings :: "'a sim_scheme \<Rightarrow> error + 'a sim_scheme" where
  "startRings s =
     (case initialCellCount s of
        None \<Rightarrow> Inl RangeError
      | Some n \<Rightarrow>
          bindE (newArray n False) (\<lambda>marks0.
          Inr (s\<lparr>currentRing := 0, rings := [firstRing (initialPattern s) n],
                 expansionMap := [marks0]\<rparr>)))"

definition initializeSimulation :: "simC \<Rightarrow> error + simC" where
  "initializeSimulation s =
     bindE (startRings s) (\<lambda>s0.
     bindE (structureLoop (numRings s0) (\<lambda>r prevCount. expansionInterval s0) 1
              (rings s0) (expansionMap s0)) (\<lambda>(rs, em).
     Inr (s0\<lparr>rings := rs, expansionMap := em\<rparr>)))"

text \<open>A complete run: \<open>initializeSimulation\<close>, then the frames.\<close>

definition simulate :: "simC \<Rightarrow> error + simC" where
  "simulate s = bindE (initializeSimulation s) drawLoop"

section \<open>Reading the controls\<close>

text \<open>
  What \<open>restartSimulation\<close> reads from the page: the text (\<open>.value\<close>) of every control
  that the generation uses. \<open>ctlDropdowns\<close> lists the interval dropdowns of the later
  version: entry \<open>r\<close> is the text of dropdown \<open>r\<close>, or \<open>None\<close> when the page has no
  such dropdown.
\<close>

record controls =
  ctlInitialCellCount :: string
  ctlNumRings :: string
  ctlExpansionInterval :: string
  ctlDropdowns :: "string option list"
  ctlRuleset :: string
  ctlInitialPattern :: string

text \<open>\<open>s.split(',')\<close>: the empty text gives one empty token.\<close>

fun splitOn :: "char \<Rightarrow> string \<Rightarrow> string list" where
  "splitOn c [] = [[]]"
| "splitOn c (x # xs) =
     (if x = c then [] # splitOn c xs
      else (case splitOn c xs of t # ts \<Rightarrow> (x # t) # ts | [] \<Rightarrow> [[x]]))"

definition trim :: "string \<Rightarrow> string" where
  "trim s = rev (dropWhile isSpace (rev (dropWhile isSpace s)))"

text \<open>
  \<^verbatim>\<open>
    if (rulesetStr.length === 8) { ruleset = rulesetStr.split('').map(bit => parseInt(bit)); }
  \<close>\<close>

definition readRuleset :: "string \<Rightarrow> jsval list \<Rightarrow> jsval list" where
  "readRuleset rulesetStr old =
     (if length rulesetStr = 8 then map (\<lambda>bit. numOf (parseInt [bit])) rulesetStr else old)"

text \<open>
  \<^verbatim>\<open>
    initialPattern = patternStr.split(',').map(val => parseInt(val.trim()))
                               .filter(val => val === 0 || val === 1);
  \<close>\<close>

definition readPattern :: "string \<Rightarrow> jsval list" where
  "readPattern patternStr =
     filter (\<lambda>val. val = Num 0 \<or> val = Num 1)
       (map (\<lambda>val. numOf (parseInt (trim val))) (splitOn CHR '','' patternStr))"

text \<open>
  \<^verbatim>\<open>
    if (initialPattern.length !== initialCellCount) {
      let newPattern = [];
      for (let i = 0; i < initialCellCount; i++) {
        newPattern.push(initialPattern[i % initialPattern.length] || 0);
      }
      initialPattern = newPattern;
    }
  \<close>
  With \<open>initialCellCount\<close> \<open>NaN\<close> the lengths differ (\<open>!==\<close> holds) and the loop does
  not run: the pattern becomes empty.
\<close>

definition matchPattern :: "jsval list \<Rightarrow> int option \<Rightarrow> jsval list" where
  "matchPattern pattern cellCount =
     (case cellCount of
        None \<Rightarrow> []
      | Some n \<Rightarrow>
          if int (length pattern) \<noteq> n
          then map (\<lambda>i. orElse (jsGetOpt pattern (jsMod (int i) (int (length pattern)))) (Num 0))
                 [0..<nat n]
          else pattern)"

text \<open>
  The part of \<open>restartSimulation\<close> that reads the controls: every number is
  \<open>parseInt\<close> of the control's text, stored as it comes, \<open>NaN\<close> included.
\<close>

definition readControls :: "controls \<Rightarrow> simC \<Rightarrow> simC" where
  "readControls c s =
     s\<lparr>initialCellCount := parseInt (ctlInitialCellCount c),
       numRings := parseInt (ctlNumRings c),
       expansionInterval := parseInt (ctlExpansionInterval c),
       ruleset := readRuleset (ctlRuleset c) (ruleset s),
       initialPattern := matchPattern (readPattern (ctlInitialPattern c))
                           (parseInt (ctlInitialCellCount c))\<rparr>"

text \<open>
  \<open>restartSimulation\<close> up to its call of \<open>initializeSimulation\<close>; its last statement,
  \<open>loop()\<close>, starts the frames again, which gives the complete restart.
\<close>

definition restartSimulation :: "controls \<Rightarrow> simC \<Rightarrow> error + simC" where
  "restartSimulation c s = initializeSimulation (readControls c s)"


section \<open>The version with one interval per ring\<close>

text \<open>
  \<open>getDivisors(n)\<close>. The loop \<open>for (let i = 1; i <= Math.sqrt(n); i++)\<close> runs while
  \<open>i * i \<le> n\<close> (for \<open>n\<close> below \<open>2^52\<close> the rounded square root decides the same); for
  a negative \<open>n\<close> the square root is \<open>NaN\<close> and the loop does not run. \<open>i\<close> starts at 1.
  When \<open>n % i === 0\<close> the quotient \<open>n / i\<close> is exact.
\<close>

function divisorLoop :: "int \<Rightarrow> int \<Rightarrow> int list \<Rightarrow> int list" where
  "divisorLoop n i divisors =
     (if 0 \<le> n \<and> 1 \<le> i \<and> i * i \<le> n
      then divisorLoop n (i + 1)
             (if jsMod n i = Some 0
              then (if i \<noteq> n div i then divisors @ [i, n div i] else divisors @ [i])
              else divisors)
      else divisors)"
  by pat_completeness auto
termination
proof (relation "measure (\<lambda>(n, i, divisors). nat (n + 1 - i))")
  show "wf (measure (\<lambda>(n, i, divisors). nat (n + 1 - i)))" by simp
next
  fix n i :: int and divisors :: "int list"
  assume a: "0 \<le> n \<and> 1 \<le> i \<and> i * i \<le> n"
  then have "i \<le> i * i" using mult_left_mono [of 1 i i] by simp
  with a have "i \<le> n" by linarith
  then show "((n, i + 1,
         if jsMod n i = Some 0
         then if i \<noteq> n div i then divisors @ [i, n div i] else divisors @ [i]
         else divisors), n, i, divisors) \<in> measure (\<lambda>(n, i, divisors). nat (n + 1 - i))"
    by simp
qed

declare divisorLoop.simps [simp del]

definition getDivisors :: "int \<Rightarrow> int list" where
  "getDivisors n = sort (divisorLoop n 1 [])"

text \<open>
  \<open>getDefaultExpansionInterval(cellCount)\<close>. \<open>Math.floor(validDivisors.length * 0.6)\<close>
  is computed in floating point; for every length below \<open>2^50\<close> the result is
  \<open>3 * length div 5\<close> (the double nearest to 0.6 is \<open>0.6 - 2^-53 / 5\<close>, and the product
  with a multiple of 5 rounds back to the integer).
\<close>

definition getDefaultExpansionInterval :: "int \<Rightarrow> int" where
  "getDefaultExpansionInterval cellCount =
     (let divisors = getDivisors cellCount;
          validDivisors = filter (\<lambda>d. 1 < d) divisors
      in if length validDivisors = 0 then cellCount
         else
           (let targetIndex = (3 * int (length validDivisors)) div 5;
                targetIndex' = max 0 (min (int (length validDivisors) - 1) targetIndex)
            in validDivisors ! nat targetIndex'))"

text \<open>
  One pass of the loop of \<open>initializeExpansionIntervals\<close>: from \<open>r\<close> and
  \<open>currentCellCount\<close> to the interval and the next ring's cell count. The count is
  \<open>None\<close> when it is \<open>NaN\<close>: the interval is 0 only when the count is 0 (the fall-back
  takes the count itself), \<open>0 / 0\<close> is \<open>NaN\<close>, and from then on \<open>interval > NaN\<close> is
  false and the count stays \<open>NaN\<close>.
\<close>

definition planStep :: "nat \<Rightarrow> int option \<Rightarrow> int \<times> int option" where
  "planStep r currentCellCount =
     (let interval0 = 2 + int r;
          interval =
            (case currentCellCount of
               None \<Rightarrow> interval0
             | Some c \<Rightarrow>
                 if interval0 > c then
                   (let divisors = getDivisors c;
                        validDivisors = filter (\<lambda>d. 1 < d) divisors
                    in if length validDivisors > 0 then validDivisors ! (length validDivisors - 1)
                       else c)
                 else interval0);
          expansionCount =
            (case currentCellCount of None \<Rightarrow> None | Some c \<Rightarrow> floorDiv c interval)
      in (interval,
          case currentCellCount of
            None \<Rightarrow> None
          | Some c \<Rightarrow> (case expansionCount of None \<Rightarrow> None | Some e \<Rightarrow> Some (c + e))))"

function planLoop :: "int option \<Rightarrow> nat \<Rightarrow> int option \<Rightarrow> jsval list \<Rightarrow> jsval list" where
  "planLoop ringTotal r currentCellCount intervals =
     (if lessNum (int r) (minusOne ringTotal)
      then (case planStep r currentCellCount of
              (interval, nextCount) \<Rightarrow>
                planLoop ringTotal (r + 1) nextCount (jsSet intervals r (Num interval)))
      else intervals)"
  by pat_completeness auto
termination
  by (relation "measure (\<lambda>(ringTotal, r, c, intervals).
                  case ringTotal of None \<Rightarrow> 0 | Some t \<Rightarrow> nat (t - int r))")
     (auto simp: lessNum_def minusOne_def split: option.splits)

declare planLoop.simps [simp del]

definition initializeExpansionIntervals :: "simV \<Rightarrow> simV" where
  "initializeExpansionIntervals s =
     s\<lparr>expansionIntervals := planLoop (numRings s) 0 (initialCellCount s) []\<rparr>"

text \<open>\<open>expansionIntervals[r - 1] || prevCount\<close>, used as a number.\<close>

definition intervalOr :: "jsval \<Rightarrow> int \<Rightarrow> int" where
  "intervalOr v prevCount =
     (case v of Num k \<Rightarrow> (if k = 0 then prevCount else k)
              | NaN \<Rightarrow> prevCount
              | Undefined \<Rightarrow> prevCount)"

definition initializeSimulationV :: "simV \<Rightarrow> error + simV" where
  "initializeSimulationV s0 =
     (let s = (if length (expansionIntervals s0) = 0 then initializeExpansionIntervals s0 else s0)
      in bindE (startRings s) (\<lambda>s1.
         bindE (structureLoop (numRings s1)
                  (\<lambda>r prevCount.
                     Some (intervalOr (jsGet (expansionIntervals s1) (int r - 1)) (int prevCount)))
                  1 (rings s1) (expansionMap s1)) (\<lambda>(rs, em).
         Inr (s1\<lparr>rings := rs, expansionMap := em\<rparr>))))"

definition simulateV :: "simV \<Rightarrow> error + simV" where
  "simulateV s = bindE (initializeSimulationV s) drawLoop"

text \<open>
  \<^verbatim>\<open>
    expansionIntervals = [];
    for (let r = 0; r < numRings - 1; r++) {
      let dropdown = document.getElementById('expansionInterval_' + r);
      if (dropdown) { expansionIntervals[r] = parseInt(dropdown.value); }
    }
  \<close>
  With \<open>numRings\<close> \<open>NaN\<close> the loop does not run.
\<close>

definition readDropdowns :: "int option \<Rightarrow> string option list \<Rightarrow> jsval list" where
  "readDropdowns ringTotal dropdowns =
     foldl (\<lambda>intervals r.
              if r < length dropdowns
              then (case dropdowns ! r of None \<Rightarrow> intervals
                                       | Some v \<Rightarrow> jsSet intervals r (numOf (parseInt v)))
              else intervals)
       [] [0..<(case ringTotal of None \<Rightarrow> 0 | Some n \<Rightarrow> nat (n - 1))]"

definition readControlsV :: "controls \<Rightarrow> simV \<Rightarrow> simV" where
  "readControlsV c s =
     s\<lparr>initialCellCount := parseInt (ctlInitialCellCount c),
       numRings := parseInt (ctlNumRings c),
       expansionIntervals := readDropdowns (parseInt (ctlNumRings c)) (ctlDropdowns c),
       ruleset := readRuleset (ctlRuleset c) (ruleset s),
       initialPattern := matchPattern (readPattern (ctlInitialPattern c))
                           (parseInt (ctlInitialCellCount c))\<rparr>"

definition restartSimulationV :: "controls \<Rightarrow> simV \<Rightarrow> error + simV" where
  "restartSimulationV c s = initializeSimulationV (readControlsV c s)"

section \<open>Notions used in the statements\<close>

text \<open>
  The number of positions before \<open>i\<close> that are not marked as expansion cells: the number
  of rule-driven cells that precede position \<open>i\<close> in the new ring.
\<close>

definition cursorAt :: "bool list \<Rightarrow> nat \<Rightarrow> nat" where
  "cursorAt marks i = length (filter (\<lambda>j. \<not> maskAt marks j) [0..<i])"

text \<open>The value that an expansion cell at position \<open>j\<close> receives.\<close>

definition copied :: "jsval list \<Rightarrow> bool list \<Rightarrow> nat \<Rightarrow> jsval" where
  "copied cur m j = (if 0 < cursorAt m j then jsGet cur (int (cursorAt m j) - 1)
                     else jsGet cur (int (length cur) - 1))"

text \<open>
  The divisors seen by the loop of \<open>getDivisors\<close> before pass \<open>i\<close>: those below \<open>i\<close>
  and the quotients by them.
\<close>

definition seen :: "int \<Rightarrow> int \<Rightarrow> int set" where
  "seen n i = {d. 0 < d \<and> d dvd n \<and> (d < i \<or> n div d < i)}"

text \<open>
  The divisors of \<open>n\<close> that are greater than 1, in ascending order, as the specification
  describes them.
\<close>

definition divisorsAbove1 :: "int \<Rightarrow> int list" where
  "divisorsAbove1 n = filter (\<lambda>d. d dvd n) [2..n]"

text \<open>
  Twice the median of a sorted list (the sum of the two middle elements when the length is
  even), so that it stays an integer.
\<close>

definition medianTwice :: "int list \<Rightarrow> int" where
  "medianTwice xs =
     (if even (length xs) then xs ! (length xs div 2 - 1) + xs ! (length xs div 2)
      else 2 * xs ! (length xs div 2))"

definition isPrime :: "int \<Rightarrow> bool" where
  "isPrime n = (2 \<le> n \<and> (\<forall>d \<in> {2..<n}. \<not> d dvd n))"

text \<open>
  The default interval as the specification words it: among the divisors greater than 1,
  in ascending order, the one at index \<open>floor(0.6 * count)\<close>, clamped to the list;
  \<open>n\<close> itself when there is none.
\<close>

definition defaultBySpec :: "int \<Rightarrow> int" where
  "defaultBySpec n =
     (let ds = divisorsAbove1 n; count = int (length ds)
      in if ds = [] then n else ds ! nat (max 0 (min (count - 1) ((3 * count) div 5))))"

text \<open>
  The largest divisor greater than 1, or the number itself when it has none, as the
  specification words the fall-back of the planner.
\<close>

definition largestDivisorOrSelf :: "int \<Rightarrow> int" where
  "largestDivisorOrSelf c =
     (if divisorsAbove1 c = [] then c else Max (set (divisorsAbove1 c)))"

text \<open>
  \<open>currentCellCount\<close> at the start of pass \<open>r\<close> of \<open>initializeExpansionIntervals\<close>,
  by the loop's own step.
\<close>

primrec countAt :: "int \<Rightarrow> nat \<Rightarrow> int option" where
  "countAt n 0 = Some n"
| "countAt n (Suc r) = snd (planStep r (countAt n r))"

text \<open>
  Two states with the same parameters: they may differ in \<open>rings\<close>, \<open>expansionMap\<close>
  and \<open>currentRing\<close> only. The interval (or the interval array) is the field that extends
  \<open>sim\<close>.
\<close>

definition sameParameters :: "'a sim_scheme \<Rightarrow> 'a sim_scheme \<Rightarrow> bool" where
  "sameParameters s1 s2 =
     (initialCellCount s1 = initialCellCount s2 \<and> numRings s1 = numRings s2 \<and>
      ruleset s1 = ruleset s2 \<and> initialPattern s1 = initialPattern s2 \<and>
      sim.more s1 = sim.more s2)"

text \<open>The global variables as the two versions of the sketch initialise them.\<close>

definition sketch :: simC where
  "sketch = \<lparr>initialCellCount = Some 8, numRings = Some 15,
             ruleset = [Num 0, Num 1, Num 0, Num 1, Num 1, Num 0, Num 1, Num 0],
             initialPattern = [Num 1, Num 0, Num 1, Num 0, Num 1, Num 0, Num 1, Num 0],
             rings = [], expansionMap = [], currentRing = 0, expansionInterval = Some 5\<rparr>"

definition sketchV :: simV where
  "sketchV = \<lparr>initialCellCount = Some 16, numRings = Some 20,
             ruleset = [Num 0, Num 1, Num 0, Num 1, Num 1, Num 0, Num 1, Num 0],
             initialPattern = replicate 16 (Num 1),
             rings = [], expansionMap = [], currentRing = 0, expansionIntervals = []\<rparr>"

section \<open>The rule engine uses the complemented index\<close>

lemma toStr_bit: "toStr (Num 0) = ''0''" "toStr (Num 1) = ''1''"
  by (simp_all add: toStr_def decimal.simps [of 0] decimal.simps [of "Suc 0"])

lemma parse_bits:
  "parseIntRadix 2 ''000'' = Some 0" "parseIntRadix 2 ''001'' = Some 1"
  "parseIntRadix 2 ''010'' = Some 2" "parseIntRadix 2 ''011'' = Some 3"
  "parseIntRadix 2 ''100'' = Some 4" "parseIntRadix 2 ''101'' = Some 5"
  "parseIntRadix 2 ''110'' = Some 6" "parseIntRadix 2 ''111'' = Some 7"
  by (simp_all add: parseIntRadix_def stripSign_def parseDigits_def isDigit_def
      digitVal_def digitsValue_def isSpace_def)

text \<open>
  Claim C3. For bits \<open>l\<close>, \<open>c\<close>, \<open>r\<close> and a ruleset of 8 entries, \<open>rules\<close> returns the
  entry at \<open>7 - idx\<close>, where \<open>idx = l * 4 + c * 2 + r\<close>: the complemented index, not
  \<open>idx\<close> itself.
\<close>

theorem rules_complement_index:
  assumes "l \<in> {0, 1}" "c \<in> {0, 1}" "r \<in> {0, 1}" "length rs = 8"
  shows "rules rs (Num l) (Num c) (Num r) = rs ! nat (7 - (l * 4 + c * 2 + r))"
  using assms by (auto simp: rules_def toStr_bit parse_bits jsGet_def)

text \<open>
  On a ruleset that is not symmetric the two indexings differ: for the cells 1, 0, 0 the
  index is 4, the result is entry 3 and not entry 4.
\<close>

theorem rules_complement_index_witness:
  "(1::int) \<in> {0, 1} \<and> (0::int) \<in> {0, 1} \<and>
   length [Num 0, Num 1, Num 0, Num 1, Num 0, Num 0, Num 0, Num 0] = 8 \<and>
   rules [Num 0, Num 1, Num 0, Num 1, Num 0, Num 0, Num 0, Num 0] (Num 1) (Num 0) (Num 0) = Num 1 \<and>
   [Num 0, Num 1, Num 0, Num 1, Num 0, Num 0, Num 0, Num 0] ! 4 = Num 0"
  using rules_complement_index [of 1 0 0 "[Num 0, Num 1, Num 0, Num 1, Num 0, Num 0, Num 0, Num 0]"]
  by simp

section \<open>The structure of a ring: counts and marks\<close>

lemma count_residue:
  fixes m :: nat
  assumes "0 < m"
  shows "length (filter (\<lambda>i. i mod m = m - 1) [0..<n]) = n div m"
proof (induction n)
  case 0
  then show ?case by simp
next
  case (Suc n)
  have "Suc n mod m = 0 \<longleftrightarrow> n mod m = m - 1"
    using assms by (auto simp: mod_Suc split: if_splits)
  then show ?case using Suc by (simp add: div_Suc)
qed

lemma grown_div:
  fixes p k :: nat
  assumes "0 < k"
  shows "(p + p div k) div (k + 1) = p div k"
proof -
  have e: "p + p div k = p mod k + (p div k) * (k + 1)"
    by (simp add: algebra_simps)
  have "p mod k < k + 1" using assms by (simp add: less_Suc_eq_le)
  then have "(p mod k + (p div k) * (k + 1)) div (k + 1) = p div k"
    by (simp only: div_mult_self1 div_mult_self2 div_mult_self3 div_mult_self4 div_less)
  with e show ?thesis by simp
qed

lemma jsMod_nat:
  "jsMod (int i) (int k + 1) = Some (int k) \<longleftrightarrow> i mod (k + 1) = k"
proof -
  have "int i mod (int k + 1) = int (i mod (k + 1))"
    by (simp add: zmod_int add.commute)
  then show ?thesis by (simp add: jsMod_def)
qed

lemma ringStructure_nat:
  assumes "0 < k"
  shows "ringStructure p (int k) =
           Inr (replicate (p + p div k) Undefined, map (\<lambda>i. i mod (k + 1) = k) [0..<p + p div k])"
proof -
  have "int p + int p div int k = int (p + p div k)"
    by (simp add: zdiv_int)
  then show ?thesis
    using assms
    by (simp add: ringStructure_def floorDiv_def newArray_def bindE_def Let_def jsMod_nat
        del: of_nat_add)
qed

lemma count_marks:
  assumes "0 < k"
  shows "length (filter (\<lambda>b. b) (map (\<lambda>i. i mod (k + 1) = k) [0..<p + p div k])) = p div k"
proof -
  have "length (filter (\<lambda>b. b) (map (\<lambda>i. i mod (k + 1) = k) [0..<p + p div k]))
        = length (filter (\<lambda>i. i mod (k + 1) = (k + 1) - 1) [0..<p + p div k])"
    by (simp add: filter_map comp_def)
  also have "\<dots> = (p + p div k) div (k + 1)"
    by (rule count_residue) simp
  also have "\<dots> = p div k"
    using assms by (rule grown_div)
  finally show ?thesis .
qed

text \<open>
  Claim C1. For an interval of at least 1 (and any length of the previous ring, 0 included)
  the structure of the new ring is built without error; the new ring has
  \<open>prevCount + floor(prevCount / interval)\<close> cells, the marks have the same length,
  position \<open>i\<close> is marked as an expansion cell exactly when
  \<open>i mod (interval + 1) = interval\<close>, and exactly \<open>floor(prevCount / interval)\<close>
  positions are marked.
\<close>

theorem ringStructure_count:
  assumes "1 \<le> interval"
  shows "\<exists>cells marks.
           ringStructure prevCount interval = Inr (cells, marks) \<and>
           int (length cells) = int prevCount + int prevCount div interval \<and>
           length marks = length cells \<and>
           (\<forall>i < length marks. marks ! i \<longleftrightarrow> int i mod (interval + 1) = interval) \<and>
           int (length (filter (\<lambda>b. b) marks)) = int prevCount div interval"
proof -
  define k where "k = nat interval"
  have k: "0 < k" "interval = int k" using assms by (simp_all add: k_def)
  let ?n = "prevCount + prevCount div k"
  let ?marks = "map (\<lambda>i. i mod (k + 1) = k) [0..<?n]"
  have s: "ringStructure prevCount interval = Inr (replicate ?n Undefined, ?marks)"
    using ringStructure_nat [OF k(1)] k(2) by simp
  have len: "int (length (replicate ?n Undefined)) = int prevCount + int prevCount div interval"
    by (simp add: k(2) zdiv_int)
  have at: "\<forall>i < length ?marks. ?marks ! i \<longleftrightarrow> int i mod (interval + 1) = interval"
  proof (intro allI impI)
    fix i assume "i < length ?marks"
    then have "?marks ! i \<longleftrightarrow> i mod (k + 1) = k" by simp
    also have "\<dots> \<longleftrightarrow> int (i mod (k + 1)) = int k" by simp
    also have "\<dots> \<longleftrightarrow> int i mod (interval + 1) = interval"
      by (simp add: k(2) zmod_int add.commute)
    finally show "?marks ! i \<longleftrightarrow> int i mod (interval + 1) = interval" .
  qed
  have cnt: "int (length (filter (\<lambda>b. b) ?marks)) = int prevCount div interval"
    using count_marks [OF k(1), of prevCount] by (simp add: k(2) zdiv_int)
  show ?thesis
    using s len at cnt by (intro exI [of _ "replicate ?n Undefined"] exI [of _ ?marks]) simp
qed

text \<open>
  The scenario of 8 cells and interval 4: 10 cells, expansion cells at 4 and 9.
\<close>

theorem ringStructure_count_witness:
  "(1::int) \<le> 4 \<and>
   ringStructure 8 4 =
     Inr (replicate 10 Undefined,
          [False, False, False, False, True, False, False, False, False, True]) \<and>
   (\<exists>cells marks. ringStructure 8 4 = Inr (cells, marks) \<and> length cells = 10 \<and>
      length (filter (\<lambda>b. b) marks) = 2)"
proof -
  have h: "(1::int) \<le> 4" by simp
  have e: "ringStructure 8 4 =
     Inr (replicate 10 Undefined,
          [False, False, False, False, True, False, False, False, False, True])"
    by code_simp
  from ringStructure_count [OF h, of 8] obtain cells marks where
    "ringStructure 8 4 = Inr (cells, marks)" "int (length cells) = int 8 + int 8 div 4"
    "int (length (filter (\<lambda>b. b) marks)) = int 8 div 4"
    by blast
  then have "ringStructure 8 4 = Inr (cells, marks) \<and> length cells = 10 \<and>
      length (filter (\<lambda>b. b) marks) = 2"
    by simp
  with h e show ?thesis by blast
qed

section \<open>The loop of generateNextRing\<close>

lemma cursorAt_0: "cursorAt m 0 = 0"
  by (simp add: cursorAt_def)

lemma cursorAt_Suc: "cursorAt m (Suc i) = cursorAt m i + (if maskAt m i then 0 else 1)"
  by (simp add: cursorAt_def)

lemma cursorAt_mono: "i \<le> j \<Longrightarrow> cursorAt m i \<le> cursorAt m j"
  by (induction j) (auto simp: cursorAt_Suc le_Suc_eq)

lemma cursorAt_le: "cursorAt m i \<le> i"
  by (induction i) (auto simp: cursorAt_Suc cursorAt_0)

lemma genBody_shape:
  "fst (genBody rs cur m (i, p, nxt)) = i + 1 \<and>
   fst (snd (genBody rs cur m (i, p, nxt))) = p + (if maskAt m i then 0 else 1) \<and>
   length (snd (snd (genBody rs cur m (i, p, nxt)))) = length nxt"
  by (simp add: genBody_def Let_def)

lemma genLoop_funpow:
  "genLoop rs cur m st = (genBody rs cur m ^^ (length (snd (snd st)) - fst st)) st"
proof (induction rs cur m st rule: genLoop.induct)
  case (1 rs cur m i p nxt)
  show ?case
  proof (cases "i < length nxt")
    case True
    obtain i' p' nxt' where b: "genBody rs cur m (i, p, nxt) = (i', p', nxt')"
      by (cases "genBody rs cur m (i, p, nxt)") auto
    with genBody_shape [of rs cur m i p nxt] have sh: "i' = i + 1" "length nxt' = length nxt"
      by simp_all
    have "length nxt - i = Suc (length nxt' - i')" using True sh by simp
    then have "(genBody rs cur m ^^ (length nxt - i)) (i, p, nxt)
             = (genBody rs cur m ^^ (length nxt' - i')) (i', p', nxt')"
      by (simp add: funpow_swap1 b)
    moreover have "genLoop rs cur m (i, p, nxt) = genLoop rs cur m (i', p', nxt')"
      using True b by (simp add: genLoop.simps [of rs cur m i p nxt])
    moreover have "genLoop rs cur m (i', p', nxt')
             = (genBody rs cur m ^^ (length nxt' - i')) (i', p', nxt')"
      using "1.IH" [OF True] b by simp
    ultimately show ?thesis by simp
  next
    case False
    then show ?thesis by (simp add: genLoop.simps [of rs cur m i p nxt])
  qed
qed

lemma genBody_iterate:
  assumes "k \<le> length nxt"
  shows "\<exists>cells. (genBody rs cur m ^^ k) (0, 0, nxt) = (k, cursorAt m k, cells) \<and>
           length cells = length nxt \<and>
           (\<forall>j < k. maskAt m j \<longrightarrow> cells ! j = copied cur m j)"
  using assms
proof (induction k)
  case 0
  then show ?case by (simp add: cursorAt_0)
next
  case (Suc k)
  then obtain cells where c: "(genBody rs cur m ^^ k) (0, 0, nxt) = (k, cursorAt m k, cells)"
    "length cells = length nxt" "\<forall>j < k. maskAt m j \<longrightarrow> cells ! j = copied cur m j"
    by auto
  let ?st = "genBody rs cur m (k, cursorAt m k, cells)"
  have k: "k < length cells" using Suc.prems c(2) by simp
  have 1: "fst ?st = Suc k" "fst (snd ?st) = cursorAt m (Suc k)" "length (snd (snd ?st)) = length nxt"
    using genBody_shape [of rs cur m k "cursorAt m k" cells] c(2) by (simp_all add: cursorAt_Suc)
  have 2: "\<forall>j < Suc k. maskAt m j \<longrightarrow> snd (snd ?st) ! j = copied cur m j"
  proof (intro allI impI)
    fix j assume j: "j < Suc k" "maskAt m j"
    show "snd (snd ?st) ! j = copied cur m j"
    proof (cases "j = k")
      case True
      then show ?thesis using j k by (simp add: genBody_def copied_def)
    next
      case False
      then have "j < k" using j by simp
      then have "snd (snd ?st) ! j = cells ! j"
        by (simp add: genBody_def Let_def)
      then show ?thesis using c(3) \<open>j < k\<close> j by simp
    qed
  qed
  have "(genBody rs cur m ^^ Suc k) (0, 0, nxt) = ?st" by (simp add: c(1))
  moreover have "?st = (Suc k, cursorAt m (Suc k), snd (snd ?st))"
    using 1 by (metis prod.collapse)
  ultimately show ?case using 1 2 by auto
qed


lemma copied_in_ring:
  assumes "cur \<noteq> []" "cursorAt m j \<le> length cur"
  shows "copied cur m j = (if 0 < cursorAt m j then cur ! (cursorAt m j - 1) else last cur)"
    and "copied cur m j \<in> set cur"
proof -
  show e: "copied cur m j = (if 0 < cursorAt m j then cur ! (cursorAt m j - 1) else last cur)"
  proof (cases "0 < cursorAt m j")
    case True
    then have "nat (int (cursorAt m j) - 1) = cursorAt m j - 1" by simp
    then show ?thesis using True assms by (simp add: copied_def jsGet_def)
  next
    case False
    have "nat (int (length cur) - 1) = length cur - 1" by simp
    then show ?thesis using False assms by (simp add: copied_def jsGet_def last_conv_nth)
  qed
  show "copied cur m j \<in> set cur"
    unfolding e using assms by (auto intro!: nth_mem)
qed

lemma generateNextRing_result:
  assumes "ringIndex + 1 < length (rings s)" "ringIndex + 1 < length (expansionMap s)"
  shows "generateNextRing ringIndex s =
           Inr (s\<lparr>rings := (rings s)[ringIndex + 1 :=
                  snd (snd (genLoop (ruleset s) (rings s ! ringIndex)
                     (expansionMap s ! (ringIndex + 1)) (0, 0, rings s ! (ringIndex + 1))))]\<rparr>)"
  using assms by (simp add: generateNextRing_def Let_def)

text \<open>
  Claim C2. Let the next ring and its marks be allocated, the current ring be non-empty and
  the next ring have at most as many unmarked positions as the current ring has cells
  (a well-formed mask has exactly as many). Then \<open>generateNextRing\<close> succeeds; its loop is
  the body iterated once per position; the cursor \<open>prevIndex\<close> before pass \<open>k\<close> is the
  number of unmarked positions before \<open>k\<close>, so it advances on non-expansion cells only; and
  an expansion cell at position \<open>i\<close> receives \<open>currentCells[prevIndex - 1]\<close> when the
  cursor is positive and the last cell of the current ring when it is 0, in both cases a
  value of the current ring, whatever the ruleset.
\<close>

theorem generateNextRing_expansion_cells:
  assumes "ringIndex + 1 < length (rings s)" "ringIndex + 1 < length (expansionMap s)"
    and "rings s ! ringIndex \<noteq> []"
    and "cursorAt (expansionMap s ! (ringIndex + 1)) (length (rings s ! (ringIndex + 1)))
           \<le> length (rings s ! ringIndex)"
  shows "let currentCells = rings s ! ringIndex;
             nextCells = rings s ! (ringIndex + 1);
             nextExpansions = expansionMap s ! (ringIndex + 1);
             body = genBody (ruleset s) currentCells nextExpansions
         in genLoop (ruleset s) currentCells nextExpansions (0, 0, nextCells)
              = (body ^^ length nextCells) (0, 0, nextCells) \<and>
            (\<forall>k \<le> length nextCells.
               fst (snd ((body ^^ k) (0, 0, nextCells))) = cursorAt nextExpansions k) \<and>
            (\<exists>s'. generateNextRing ringIndex s = Inr s' \<and>
               length (rings s' ! (ringIndex + 1)) = length nextCells \<and>
               (\<forall>i < length nextCells. maskAt nextExpansions i \<longrightarrow>
                  rings s' ! (ringIndex + 1) ! i
                    = (if 0 < cursorAt nextExpansions i
                       then currentCells ! (cursorAt nextExpansions i - 1)
                       else last currentCells) \<and>
                  rings s' ! (ringIndex + 1) ! i \<in> set currentCells))"
proof -
  let ?cur = "rings s ! ringIndex"
  let ?nxt = "rings s ! (ringIndex + 1)"
  let ?m = "expansionMap s ! (ringIndex + 1)"
  let ?rs = "ruleset s"
  have loop: "genLoop ?rs ?cur ?m (0, 0, ?nxt) = (genBody ?rs ?cur ?m ^^ length ?nxt) (0, 0, ?nxt)"
    using genLoop_funpow [of ?rs ?cur ?m "(0, 0, ?nxt)"] by simp
  have cursor: "\<forall>k \<le> length ?nxt. fst (snd ((genBody ?rs ?cur ?m ^^ k) (0, 0, ?nxt))) = cursorAt ?m k"
    using genBody_iterate [of _ ?nxt ?rs ?cur ?m] by fastforce
  obtain cells where c: "(genBody ?rs ?cur ?m ^^ length ?nxt) (0, 0, ?nxt) = (length ?nxt, cursorAt ?m (length ?nxt), cells)"
    "length cells = length ?nxt" "\<forall>j < length ?nxt. maskAt ?m j \<longrightarrow> cells ! j = copied ?cur ?m j"
    using genBody_iterate [of "length ?nxt" ?nxt ?rs ?cur ?m] by auto
  let ?s' = "s\<lparr>rings := (rings s)[ringIndex + 1 := cells]\<rparr>"
  have res: "generateNextRing ringIndex s = Inr ?s'"
    using generateNextRing_result [OF assms(1,2)] loop c(1)
    by simp
  have at: "rings ?s' ! (ringIndex + 1) = cells"
    using assms(1) by simp
  have vals: "\<forall>i < length ?nxt. maskAt ?m i \<longrightarrow>
                  cells ! i = (if 0 < cursorAt ?m i then ?cur ! (cursorAt ?m i - 1) else last ?cur) \<and>
                  cells ! i \<in> set ?cur"
  proof (intro allI impI)
    fix i assume i: "i < length ?nxt" "maskAt ?m i"
    have "cursorAt ?m i \<le> cursorAt ?m (length ?nxt)" using i by (intro cursorAt_mono) simp
    then have le: "cursorAt ?m i \<le> length ?cur" using assms(4) by simp
    have ne: "?cur \<noteq> []" using assms(3) by simp
    show "cells ! i = (if 0 < cursorAt ?m i then ?cur ! (cursorAt ?m i - 1) else last ?cur) \<and>
                  cells ! i \<in> set ?cur"
      using c(3) i copied_in_ring [OF ne le] by simp
  qed
  have "length (rings ?s' ! (ringIndex + 1)) = length ?nxt"
    by (simp only: at c(2))
  moreover have "\<forall>i < length ?nxt. maskAt ?m i \<longrightarrow>
                  rings ?s' ! (ringIndex + 1) ! i
                    = (if 0 < cursorAt ?m i then ?cur ! (cursorAt ?m i - 1) else last ?cur) \<and>
                  rings ?s' ! (ringIndex + 1) ! i \<in> set ?cur"
    by (simp only: at) (rule vals)
  ultimately have "\<exists>s'. generateNextRing ringIndex s = Inr s' \<and>
               length (rings s' ! (ringIndex + 1)) = length ?nxt \<and>
               (\<forall>i < length ?nxt. maskAt ?m i \<longrightarrow>
                  rings s' ! (ringIndex + 1) ! i
                    = (if 0 < cursorAt ?m i then ?cur ! (cursorAt ?m i - 1) else last ?cur) \<and>
                  rings s' ! (ringIndex + 1) ! i \<in> set ?cur)"
    using res by blast
  with loop cursor show ?thesis
    unfolding Let_def by blast
qed


text \<open>
  A ring of 3 cells followed by a ring of 4 with interval 3: the expansion cell at position 3
  copies the cell at index 2.
\<close>

theorem generateNextRing_expansion_cells_witness:
  "let s = \<lparr>initialCellCount = Some 3, numRings = Some 2,
              ruleset = [Num 0, Num 1, Num 0, Num 1, Num 1, Num 0, Num 1, Num 0],
              initialPattern = [Num 0, Num 0, Num 1],
              rings = [[Num 0, Num 0, Num 1], [Undefined, Undefined, Undefined, Undefined]],
              expansionMap = [[False, False, False], [False, False, False, True]],
              currentRing = 0\<rparr>
   in 0 + 1 < length (rings s) \<and> 0 + 1 < length (expansionMap s) \<and> rings s ! 0 \<noteq> [] \<and>
      cursorAt (expansionMap s ! (0 + 1)) (length (rings s ! (0 + 1))) \<le> length (rings s ! 0) \<and>
      cursorAt (expansionMap s ! (0 + 1)) 3 = 3 \<and>
      (\<exists>s'. generateNextRing 0 s = Inr s' \<and> rings s' ! (0 + 1) ! 3 = Num 1)"
proof -
  let ?s = "\<lparr>initialCellCount = Some 3, numRings = Some 2,
              ruleset = [Num 0, Num 1, Num 0, Num 1, Num 1, Num 0, Num 1, Num 0],
              initialPattern = [Num 0, Num 0, Num 1],
              rings = [[Num 0, Num 0, Num 1], [Undefined, Undefined, Undefined, Undefined]],
              expansionMap = [[False, False, False], [False, False, False, True]],
              currentRing = 0\<rparr>"
  have h1: "0 + 1 < length (rings ?s)" by simp
  have h2: "0 + 1 < length (expansionMap ?s)" by simp
  have h3: "rings ?s ! 0 \<noteq> []" by simp
  have h4: "cursorAt (expansionMap ?s ! (0 + 1)) (length (rings ?s ! (0 + 1))) \<le> length (rings ?s ! 0)"
    by code_simp
  have c3': "cursorAt (expansionMap ?s ! (0 + 1)) 3 = 3" by code_simp
  have m3: "maskAt (expansionMap ?s ! (0 + 1)) 3" by code_simp
  from generateNextRing_expansion_cells [OF h1 h2 h3 h4]
  obtain s' where s': "generateNextRing 0 ?s = Inr s'"
    "\<forall>i < length (rings ?s ! (0 + 1)). maskAt (expansionMap ?s ! (0 + 1)) i \<longrightarrow>
        rings s' ! (0 + 1) ! i =
          (if 0 < cursorAt (expansionMap ?s ! (0 + 1)) i
           then rings ?s ! 0 ! (cursorAt (expansionMap ?s ! (0 + 1)) i - 1) else last (rings ?s ! 0))"
    unfolding Let_def by blast
  have "3 < length (rings ?s ! (0 + 1))" by simp
  then have "rings s' ! (0 + 1) ! 3 =
          (if 0 < cursorAt (expansionMap ?s ! (0 + 1)) 3
           then rings ?s ! 0 ! (cursorAt (expansionMap ?s ! (0 + 1)) 3 - 1) else last (rings ?s ! 0))"
    using s'(2) m3 by blast
  then have "rings s' ! (0 + 1) ! 3 = Num 1"
    unfolding c3' by simp
  with s'(1) have "\<exists>s'. generateNextRing 0 ?s = Inr s' \<and> rings s' ! (0 + 1) ! 3 = Num 1"
    by blast
  with h1 h2 h3 h4 c3' show ?thesis unfolding Let_def by blast
qed

lemma ring_marks_maskAt:
  "maskAt (map (\<lambda>i. i mod (k + 1) = k) [0..<n]) j \<longleftrightarrow> j < n \<and> j mod (k + 1) = k"
  by (auto simp: maskAt_def)

lemma ring_marks_total:
  assumes "0 < k"
  shows "cursorAt (map (\<lambda>i. i mod (k + 1) = k) [0..<p + p div k]) (p + p div k) = p"
proof -
  let ?n = "p + p div k"
  let ?m = "map (\<lambda>i. i mod (k + 1) = k) [0..<?n]"
  have "length (filter (\<lambda>j. maskAt ?m j) [0..<?n]) + cursorAt ?m ?n = length [0..<?n]"
    unfolding cursorAt_def by (rule sum_length_filter_compl)
  moreover have "filter (\<lambda>j. maskAt ?m j) [0..<?n] = filter (\<lambda>i. i mod (k + 1) = (k + 1) - 1) [0..<?n]"
  proof (rule filter_cong [OF refl])
    fix j assume "j \<in> set [0..<?n]"
    then show "maskAt ?m j = (j mod (k + 1) = (k + 1) - 1)"
      unfolding ring_marks_maskAt by simp
  qed
  moreover have "length (filter (\<lambda>i. i mod (k + 1) = (k + 1) - 1) [0..<?n]) = ?n div (k + 1)"
    by (rule count_residue) simp
  moreover have "?n div (k + 1) = p div k" using assms by (rule grown_div)
  ultimately show ?thesis by simp
qed

text \<open>
  Claim C10. For marks built by \<open>ringStructure\<close> with an interval of at least 1, position 0
  is not an expansion cell; before every pass \<open>k\<close> of the loop of \<open>generateNextRing\<close> the
  cursor is positive at an expansion cell (the branch copying the last cell is not taken)
  and \<open>prevIndex - 1\<close> is an index of the current ring, while at a rule-driven cell
  \<open>prevIndex\<close> and both neighbour indices are indices of the current ring; the cursor ends
  at the length of the current ring.
\<close>

theorem ring_marks_keep_cursor_in_bounds:
  assumes "1 \<le> interval"
    and "ringStructure (length currentCells) interval = Inr (nextCells, marks)"
  shows "\<not> maskAt marks 0 \<and>
         (\<forall>k < length nextCells.
            case (genBody rs currentCells marks ^^ k) (0, 0, nextCells) of
              (i, prevIndex, cells) \<Rightarrow>
                i = k \<and>
                (if maskAt marks k
                 then 0 < prevIndex \<and> prevIndex - 1 < length currentCells
                 else prevIndex < length currentCells \<and>
                      (\<exists>l r. jsMod (int prevIndex - 1 + int (length currentCells))
                                (int (length currentCells)) = Some l \<and>
                             0 \<le> l \<and> l < int (length currentCells) \<and>
                             jsMod (int prevIndex + 1) (int (length currentCells)) = Some r \<and>
                             0 \<le> r \<and> r < int (length currentCells)))) \<and>
         genLoop rs currentCells marks (0, 0, nextCells)
           = (genBody rs currentCells marks ^^ length nextCells) (0, 0, nextCells) \<and>
         fst (snd (genLoop rs currentCells marks (0, 0, nextCells))) = length currentCells"
proof -
  define k where "k = nat interval"
  define p where "p = length currentCells"
  have k: "0 < k" "interval = int k" using assms(1) by (simp_all add: k_def)
  let ?n = "p + p div k"
  have sh: "nextCells = replicate ?n Undefined" "marks = map (\<lambda>i. i mod (k + 1) = k) [0..<?n]"
    using assms(2) ringStructure_nat [OF k(1), of p] by (simp_all add: k(2) p_def)
  have n: "length nextCells = ?n" using sh(1) by simp
  have total: "cursorAt marks ?n = p" using ring_marks_total [OF k(1)] sh(2) by simp
  have first: "\<not> maskAt marks 0"
    unfolding sh(2) ring_marks_maskAt using k(1) by simp
  have loop: "genLoop rs currentCells marks (0, 0, nextCells)
           = (genBody rs currentCells marks ^^ length nextCells) (0, 0, nextCells)"
    using genLoop_funpow [of rs currentCells marks "(0, 0, nextCells)"] by simp
  have final: "fst (snd (genLoop rs currentCells marks (0, 0, nextCells))) = length currentCells"
    using genBody_iterate [of "length nextCells" nextCells rs currentCells marks] loop total n
    by (auto simp: p_def)
  have steps: "\<forall>j < length nextCells.
            case (genBody rs currentCells marks ^^ j) (0, 0, nextCells) of
              (i, prevIndex, cells) \<Rightarrow>
                i = j \<and>
                (if maskAt marks j
                 then 0 < prevIndex \<and> prevIndex - 1 < length currentCells
                 else prevIndex < length currentCells \<and>
                      (\<exists>l r. jsMod (int prevIndex - 1 + int (length currentCells))
                                (int (length currentCells)) = Some l \<and>
                             0 \<le> l \<and> l < int (length currentCells) \<and>
                             jsMod (int prevIndex + 1) (int (length currentCells)) = Some r \<and>
                             0 \<le> r \<and> r < int (length currentCells)))"
  proof (intro allI impI)
    fix j assume j: "j < length nextCells"
    obtain cells where it: "(genBody rs currentCells marks ^^ j) (0, 0, nextCells) = (j, cursorAt marks j, cells)"
      using genBody_iterate [of j nextCells rs currentCells marks] j by auto
    have up: "cursorAt marks (Suc j) \<le> p"
      using cursorAt_mono [of "Suc j" ?n marks] j n total by simp
    have "if maskAt marks j
          then 0 < cursorAt marks j \<and> cursorAt marks j - 1 < length currentCells
          else cursorAt marks j < length currentCells \<and>
                      (\<exists>l r. jsMod (int (cursorAt marks j) - 1 + int (length currentCells))
                                (int (length currentCells)) = Some l \<and>
                             0 \<le> l \<and> l < int (length currentCells) \<and>
                             jsMod (int (cursorAt marks j) + 1) (int (length currentCells)) = Some r \<and>
                             0 \<le> r \<and> r < int (length currentCells))"
    proof (cases "maskAt marks j")
      case True
      then have "0 < j" using first by (cases j) auto
      then have "cursorAt marks 1 \<le> cursorAt marks j" by (intro cursorAt_mono) simp
      moreover have "cursorAt marks 1 = 1" using first cursorAt_Suc [of marks 0] by (simp add: cursorAt_0)
      ultimately have "0 < cursorAt marks j" by simp
      moreover have "cursorAt marks j \<le> p" using up True by (simp add: cursorAt_Suc)
      ultimately show ?thesis using True by (auto simp: p_def)
    next
      case False
      then have lt: "cursorAt marks j < p" using up by (simp add: cursorAt_Suc)
      then have pos: "0 < int p" by simp
      have "jsMod (int (cursorAt marks j) - 1 + int p) (int p) = Some ((int (cursorAt marks j) - 1 + int p) mod int p)"
        using pos by (simp add: jsMod_def)
      moreover have "jsMod (int (cursorAt marks j) + 1) (int p) = Some ((int (cursorAt marks j) + 1) mod int p)"
        using pos by (simp add: jsMod_def)
      ultimately show ?thesis using False lt pos by (simp add: p_def)
    qed
    then show "case (genBody rs currentCells marks ^^ j) (0, 0, nextCells) of
              (i, prevIndex, cells) \<Rightarrow>
                i = j \<and>
                (if maskAt marks j
                 then 0 < prevIndex \<and> prevIndex - 1 < length currentCells
                 else prevIndex < length currentCells \<and>
                      (\<exists>l r. jsMod (int prevIndex - 1 + int (length currentCells))
                                (int (length currentCells)) = Some l \<and>
                             0 \<le> l \<and> l < int (length currentCells) \<and>
                             jsMod (int prevIndex + 1) (int (length currentCells)) = Some r \<and>
                             0 \<le> r \<and> r < int (length currentCells)))"
      unfolding it by simp
  qed
  from first steps loop final show ?thesis by blast
qed

text \<open>Three cells and interval 3: the cursor ends at 3.\<close>

theorem ring_marks_keep_cursor_in_bounds_witness:
  "(1::int) \<le> 3 \<and>
   ringStructure (length [Num 0, Num 0, Num 1]) 3
     = Inr ([Undefined, Undefined, Undefined, Undefined], [False, False, False, True]) \<and>
   \<not> maskAt [False, False, False, True] 0 \<and>
   fst (snd (genLoop [Num 0, Num 1, Num 0, Num 1, Num 1, Num 0, Num 1, Num 0]
               [Num 0, Num 0, Num 1] [False, False, False, True]
               (0, 0, [Undefined, Undefined, Undefined, Undefined]))) = 3"
proof -
  have h1: "(1::int) \<le> 3" by simp
  have h2: "ringStructure (length [Num 0, Num 0, Num 1]) 3
     = Inr ([Undefined, Undefined, Undefined, Undefined], [False, False, False, True])"
    by code_simp
  note t = ring_marks_keep_cursor_in_bounds [OF h1 h2,
      of "[Num 0, Num 1, Num 0, Num 1, Num 1, Num 0, Num 1, Num 0]"]
  have a: "\<not> maskAt [False, False, False, True] 0"
    using t by (rule conjunct1)
  have "fst (snd (genLoop [Num 0, Num 1, Num 0, Num 1, Num 1, Num 0, Num 1, Num 0]
               [Num 0, Num 0, Num 1] [False, False, False, True]
               (0, 0, [Undefined, Undefined, Undefined, Undefined])))
          = length [Num 0, Num 0, Num 1]"
    using t [THEN conjunct2, THEN conjunct2, THEN conjunct2] .
  then have b: "fst (snd (genLoop [Num 0, Num 1, Num 0, Num 1, Num 1, Num 0, Num 1, Num 0]
               [Num 0, Num 0, Num 1] [False, False, False, True]
               (0, 0, [Undefined, Undefined, Undefined, Undefined]))) = 3"
    by simp
  from h1 h2 a b show ?thesis by blast
qed

section \<open>Divisors, the default interval and the planner\<close>

lemma dvd_facts:
  fixes n d :: int
  assumes "1 \<le> n" "0 < d" "d dvd n"
  shows "d * (n div d) = n" "0 < n div d" "n div d dvd n" "n div (n div d) = d"
proof -
  show 1: "d * (n div d) = n" using assms by simp
  show 2: "0 < n div d"
    using assms by (metis int_one_le_iff_zero_less less_le_not_le nonneg1_imp_zdiv_pos_iff
    zdvd_imp_le)
  show "n div d dvd n" using 1 by (metis dvd_triv_right)
  show "n div (n div d) = d" using 1 2 assms by auto
qed

lemma jsMod_dvd:
  fixes n i :: int
  assumes "0 \<le> n" "1 \<le> i"
  shows "jsMod n i = Some 0 \<longleftrightarrow> i dvd n"
  using assms by (auto simp: jsMod_def dvd_eq_mod_eq_0)

lemma sq_le: fixes i d e :: int shows "0 < i \<Longrightarrow> i \<le> d \<Longrightarrow> i \<le> e \<Longrightarrow> i * i \<le> d * e"
  using mult_mono by fastforce

lemma quot_ge: fixes i n :: int assumes "1 \<le> i" "i * i \<le> n" "i dvd n" shows "i \<le> n div i"
  using assms by fastforce

lemma seen_step_dvd:
  assumes n: "1 \<le> n" and i: "1 \<le> i" and sq: "i * i \<le> n" and dv: "i dvd n"
  shows "seen n (i + 1) = seen n i \<union> {i, n div i}"
    and "i \<notin> seen n i" and "n div i \<notin> seen n i"
proof -
  have ipos: "0 < i" using i by simp
  note f = dvd_facts [OF n ipos dv]
  have q: "i \<le> n div i" using quot_ge [OF i sq dv] .
  show "i \<notin> seen n i" using q by (simp add: seen_def)
  show "n div i \<notin> seen n i" using q f(4) by (simp add: seen_def)
  show "seen n (i + 1) = seen n i \<union> {i, n div i}"
  proof (intro set_eqI iffI)
    fix d assume "d \<in> seen n (i + 1)"
    then have d: "0 < d" "d dvd n" "d < i + 1 \<or> n div d < i + 1" by (simp_all add: seen_def)
    note g = dvd_facts [OF n d(1) d(2)]
    show "d \<in> seen n i \<union> {i, n div i}"
    proof (cases "d < i \<or> n div d < i")
      case True
      then show ?thesis using d by (simp add: seen_def)
    next
      case False
      then have "d = i \<or> n div d = i" using d(3) by auto
      then show ?thesis
      proof
        assume "d = i" then show ?thesis by simp
      next
        assume "n div d = i"
        then have "n div i = d" using g(4) by simp
        then show ?thesis by simp
      qed
    qed
  next
    fix d assume "d \<in> seen n i \<union> {i, n div i}"
    then consider "d \<in> seen n i" | "d = i" | "d = n div i" by auto
    then show "d \<in> seen n (i + 1)"
    proof cases
      case 1
      then show ?thesis by (auto simp: seen_def)
    next
      case 2
      then show ?thesis using ipos dv by (simp add: seen_def)
    next
      case 3
      then show ?thesis using f by (simp add: seen_def)
    qed
  qed
qed

lemma seen_step_not_dvd:
  assumes n: "1 \<le> n" and i: "1 \<le> i" and dv: "\<not> i dvd n"
  shows "seen n (i + 1) = seen n i"
proof (intro set_eqI iffI)
  fix d assume "d \<in> seen n (i + 1)"
  then have d: "0 < d" "d dvd n" "d < i + 1 \<or> n div d < i + 1" by (simp_all add: seen_def)
  note g = dvd_facts [OF n d(1) d(2)]
  have "d \<noteq> i" using d(2) dv by auto
  moreover have "n div d \<noteq> i" using g(3) dv by auto
  ultimately have "d < i \<or> n div d < i" using d(3) by auto
  then show "d \<in> seen n i" using d by (simp add: seen_def)
next
  fix d assume "d \<in> seen n i"
  then show "d \<in> seen n (i + 1)" by (auto simp: seen_def)
qed

lemma seen_all:
  assumes n: "1 \<le> n" and i: "1 \<le> i" and sq: "\<not> i * i \<le> n"
  shows "seen n i = {d. 0 < d \<and> d dvd n}"
proof (intro set_eqI iffI)
  fix d assume "d \<in> seen n i"
  then show "d \<in> {d. 0 < d \<and> d dvd n}" by (simp add: seen_def)
next
  fix d assume "d \<in> {d. 0 < d \<and> d dvd n}"
  then have d: "0 < d" "d dvd n" by simp_all
  note g = dvd_facts [OF n d(1) d(2)]
  have "d < i \<or> n div d < i"
  proof (rule ccontr)
    assume "\<not> (d < i \<or> n div d < i)"
    then have "i \<le> d" "i \<le> n div d" by simp_all
    then have "i * i \<le> d * (n div d)" using i by (intro sq_le) simp_all
    then show False using g(1) sq by simp
  qed
  then show "d \<in> seen n i" using d by (simp add: seen_def)
qed

lemma divisorLoop_inv:
  assumes "1 \<le> n" "1 \<le> i" "distinct acc" "set acc = seen n i"
  shows "distinct (divisorLoop n i acc) \<and> set (divisorLoop n i acc) = {d. 0 < d \<and> d dvd n}"
  using assms
proof (induction n i acc rule: divisorLoop.induct)
  case (1 n i acc)
  show ?case
  proof (cases "i * i \<le> n")
    case True
    let ?acc' = "if jsMod n i = Some 0
              then (if i \<noteq> n div i then acc @ [i, n div i] else acc @ [i])
              else acc"
    have g: "0 \<le> n \<and> 1 \<le> i \<and> i * i \<le> n" using True "1.prems" by simp
    have unf: "divisorLoop n i acc = divisorLoop n (i + 1) ?acc'"
      using g by (subst divisorLoop.simps) simp
    have inv: "distinct ?acc' \<and> set ?acc' = seen n (i + 1)"
    proof (cases "i dvd n")
      case dv: True
      have m: "jsMod n i = Some 0" using jsMod_dvd [of n i] g dv by simp
      note st = seen_step_dvd [OF "1.prems"(1,2) True dv]
      show ?thesis using m st "1.prems"(3,4) by auto
    next
      case dv: False
      have m: "jsMod n i \<noteq> Some 0" using jsMod_dvd [of n i] g dv by simp
      show ?thesis using m seen_step_not_dvd [OF "1.prems"(1,2) dv] "1.prems"(3,4) by simp
    qed
    have "distinct (divisorLoop n (i + 1) ?acc') \<and>
          set (divisorLoop n (i + 1) ?acc') = {d. 0 < d \<and> d dvd n}"
      using "1.IH" [OF g] "1.prems"(1,2) inv by simp
    then show ?thesis using unf by simp
  next
    case False
    then have "divisorLoop n i acc = acc" by (subst divisorLoop.simps) simp
    then show ?thesis using "1.prems" seen_all [OF "1.prems"(1,2) False] by simp
  qed
qed

lemma seen_1: "1 \<le> n \<Longrightarrow> seen n 1 = {}"
  using dvd_facts(2) by (fastforce simp: seen_def)

lemma getDivisors_sorted_list:
  assumes "1 \<le> n"
  shows "getDivisors n = sorted_list_of_set {d. 0 < d \<and> d dvd n}"
proof -
  have "distinct (divisorLoop n 1 []) \<and> set (divisorLoop n 1 []) = {d. 0 < d \<and> d dvd n}"
    using assms by (intro divisorLoop_inv) (simp_all add: seen_1)
  then show ?thesis
    unfolding getDivisors_def
    by (metis sorted_list_of_set_sort_remdups distinct_remdups_id)
qed







lemma divisor_le: "1 \<le> (n::int) \<Longrightarrow> d dvd n \<Longrightarrow> d \<le> n"
  using zdvd_imp_le [of d n] by simp

lemma finite_divisors: "1 \<le> (n::int) \<Longrightarrow> finite {d. 0 < d \<and> d dvd n}"
proof -
  assume "1 \<le> n"
  then have "{d. 0 < d \<and> d dvd n} \<subseteq> {1..n}"
    by (auto dest: divisor_le)
  then show ?thesis by (rule finite_subset) simp
qed

lemma validDivisors_eq:
  assumes "1 \<le> n"
  shows "filter (\<lambda>d. 1 < d) (getDivisors n) = divisorsAbove1 n"
proof (rule sorted_distinct_set_unique)
  note fin = finite_divisors [OF assms]
  show "sorted (filter (\<lambda>d. 1 < d) (getDivisors n))"
    unfolding getDivisors_sorted_list [OF assms] by (intro sorted_wrt_filter) simp
  show "distinct (filter (\<lambda>d. 1 < d) (getDivisors n))"
    unfolding getDivisors_sorted_list [OF assms] by (intro distinct_filter) simp
  show "sorted (divisorsAbove1 n)"
    unfolding divisorsAbove1_def by (intro sorted_wrt_filter) simp
  show "distinct (divisorsAbove1 n)"
    unfolding divisorsAbove1_def by (intro distinct_filter) simp
  show "set (filter (\<lambda>d. 1 < d) (getDivisors n)) = set (divisorsAbove1 n)"
    unfolding getDivisors_sorted_list [OF assms] divisorsAbove1_def
    using fin assms by (auto dest: divisor_le)
qed

lemma set_divisorsAbove1: "set (divisorsAbove1 n) = {d. 2 \<le> d \<and> d \<le> n \<and> d dvd n}"
  by (auto simp: divisorsAbove1_def)

lemma sorted_divisorsAbove1: "sorted (divisorsAbove1 n)"
  unfolding divisorsAbove1_def by (intro sorted_wrt_filter) simp

lemma getDefault_eq_spec:
  assumes "1 \<le> n"
  shows "getDefaultExpansionInterval n = defaultBySpec n"
  unfolding getDefaultExpansionInterval_def defaultBySpec_def Let_def validDivisors_eq [OF assms]
  by simp

lemma target_index:
  assumes "xs \<noteq> []"
  shows "nat (max 0 (min (int (length xs) - 1) ((3 * int (length xs)) div 5))) < length xs"
    and "length xs div 2 \<le> nat (max 0 (min (int (length xs) - 1) ((3 * int (length xs)) div 5)))"
proof -
  have "0 < length xs" using assms by simp
  then show "nat (max 0 (min (int (length xs) - 1) ((3 * int (length xs)) div 5))) < length xs"
    by linarith
  have "int (length xs div 2) \<le> (3 * int (length xs)) div 5" by linarith
  moreover have "int (length xs div 2) \<le> int (length xs) - 1" using \<open>0 < length xs\<close> by linarith
  ultimately show "length xs div 2 \<le> nat (max 0 (min (int (length xs) - 1) ((3 * int (length xs)) div 5)))"
    by linarith
qed

lemma median_le:
  assumes "sorted xs" "length xs div 2 \<le> j" "j < length xs"
  shows "medianTwice xs \<le> 2 * xs ! j"
proof -
  have a: "xs ! (length xs div 2) \<le> xs ! j"
    using assms by (intro sorted_nth_mono) simp_all
  have "xs ! (length xs div 2 - 1) \<le> xs ! (length xs div 2)"
    using assms by (intro sorted_nth_mono) simp_all
  then show ?thesis using a by (simp add: medianTwice_def)
qed

text \<open>
  Claim C5. For every \<open>n\<close> of at least 1, \<open>getDefaultExpansionInterval n\<close> divides
  \<open>n\<close>; it is \<open>n\<close> itself when \<open>n\<close> is 1 or prime; it is the element at index
  \<open>floor(0.6 * count)\<close>, clamped, of the ascending list of the divisors greater than 1;
  and it is at least the median of these divisors (stated on twice the median).
\<close>

theorem getDefaultExpansionInterval_divisor:
  assumes "1 \<le> n"
  shows "getDefaultExpansionInterval n dvd n \<and>
         (n = 1 \<or> isPrime n \<longrightarrow> getDefaultExpansionInterval n = n) \<and>
         getDefaultExpansionInterval n = defaultBySpec n \<and>
         (divisorsAbove1 n \<noteq> [] \<longrightarrow>
            medianTwice (divisorsAbove1 n) \<le> 2 * getDefaultExpansionInterval n)"
proof -
  let ?ds = "divisorsAbove1 n"
  let ?j = "nat (max 0 (min (int (length ?ds) - 1) ((3 * int (length ?ds)) div 5)))"
  have eq: "getDefaultExpansionInterval n = defaultBySpec n"
    using assms by (rule getDefault_eq_spec)
  have val: "defaultBySpec n = (if ?ds = [] then n else ?ds ! ?j)"
    by (simp add: defaultBySpec_def Let_def)
  have mem: "?ds \<noteq> [] \<Longrightarrow> ?ds ! ?j \<in> set ?ds"
    using target_index(1) [of ?ds] by (intro nth_mem)
  have dv: "defaultBySpec n dvd n"
  proof (cases "?ds = []")
    case True
    then show ?thesis by (simp add: val)
  next
    case False
    then show ?thesis using mem set_divisorsAbove1 [of n] by (auto simp: val)
  qed
  have pr: "n = 1 \<or> isPrime n \<longrightarrow> defaultBySpec n = n"
  proof
    assume "n = 1 \<or> isPrime n"
    then have "set ?ds \<subseteq> {n}"
      unfolding set_divisorsAbove1 isPrime_def by force
    then show "defaultBySpec n = n"
      using mem by (cases "?ds = []") (auto simp: val)
  qed
  have med: "?ds \<noteq> [] \<longrightarrow> medianTwice ?ds \<le> 2 * defaultBySpec n"
  proof
    assume ne: "?ds \<noteq> []"
    have "medianTwice ?ds \<le> 2 * ?ds ! ?j"
      using sorted_divisorsAbove1 target_index [OF ne] by (intro median_le)
    then show "medianTwice ?ds \<le> 2 * defaultBySpec n" using ne by (simp add: val)
  qed
  show ?thesis using eq dv pr med by simp
qed


text \<open>For 12 the divisors above 1 are 2, 3, 4, 6, 12: the default is 6, the median 4.\<close>

theorem getDefaultExpansionInterval_divisor_witness:
  "(1::int) \<le> 12 \<and> getDefaultExpansionInterval 12 = 6 \<and> (6::int) dvd 12 \<and>
   divisorsAbove1 12 \<noteq> [] \<and> medianTwice (divisorsAbove1 12) = 8 \<and>
   (1::int) \<le> 7 \<and> (7 = (1::int) \<or> isPrime 7) \<and> getDefaultExpansionInterval 7 = 7"
proof -
  have h: "(1::int) \<le> 12" by simp
  have d: "defaultBySpec 12 = 6" by code_simp
  have ne: "divisorsAbove1 12 \<noteq> []" by code_simp
  have m: "medianTwice (divisorsAbove1 12) = 8" by code_simp
  note t = getDefaultExpansionInterval_divisor [OF h]
  have a: "getDefaultExpansionInterval 12 = 6" using t d by simp
  have b: "(6::int) dvd 12" using t a by simp
  have h7: "(1::int) \<le> 7" by simp
  have p7: "isPrime 7" by code_simp
  have c: "getDefaultExpansionInterval 7 = 7"
    using getDefaultExpansionInterval_divisor [OF h7] p7 by blast
  from h a b ne m h7 p7 c show ?thesis by blast
qed



lemma self_in_divisors: "2 \<le> c \<Longrightarrow> c \<in> set (divisorsAbove1 c)"
  by (simp add: set_divisorsAbove1)

lemma divisors_nonempty: "divisorsAbove1 c \<noteq> [] \<Longrightarrow> 2 \<le> c"
proof -
  assume "divisorsAbove1 c \<noteq> []"
  then obtain d where "d \<in> set (divisorsAbove1 c)" by (cases "divisorsAbove1 c") auto
  then show "2 \<le> c" by (simp add: set_divisorsAbove1)
qed

lemma largest_is_self: "largestDivisorOrSelf c = c"
proof (cases "divisorsAbove1 c = []")
  case True
  then show ?thesis by (simp add: largestDivisorOrSelf_def)
next
  case False
  then have "2 \<le> c" by (rule divisors_nonempty)
  then have "Max (set (divisorsAbove1 c)) = c"
    by (intro Max_eqI) (simp_all add: set_divisorsAbove1)
  then show ?thesis using False by (simp add: largestDivisorOrSelf_def)
qed

lemma last_is_self:
  assumes "divisorsAbove1 c \<noteq> []"
  shows "divisorsAbove1 c ! (length (divisorsAbove1 c) - 1) = c"
proof -
  let ?vs = "divisorsAbove1 c"
  have c: "c \<in> set ?vs" using assms divisors_nonempty self_in_divisors by blast
  have "last ?vs \<in> set ?vs" using assms by simp
  then have "last ?vs \<le> c" by (simp add: set_divisorsAbove1)
  moreover have "c \<le> last ?vs"
  proof -
    from c obtain i where i: "i < length ?vs" "?vs ! i = c"
      by (auto simp: in_set_conv_nth)
    have "?vs ! i \<le> ?vs ! (length ?vs - 1)"
      using sorted_divisorsAbove1 i(1) by (intro sorted_nth_mono) simp_all
    then show ?thesis using i(2) assms by (simp add: last_conv_nth)
  qed
  ultimately show ?thesis using assms by (simp add: last_conv_nth)
qed

lemma planStep_pos:
  assumes "1 \<le> c"
  shows "\<exists>k. planStep r (Some c) = (k, Some (c + c div k)) \<and>
             k = (if c < int r + 2 then largestDivisorOrSelf c else int r + 2) \<and>
             1 \<le> k \<and> k \<le> c"
proof (cases "c < int r + 2")
  case True
  have "planStep r (Some c) = (c, Some (c + c div c))"
  proof (cases "divisorsAbove1 c = []")
    case True
    then show ?thesis
      using \<open>c < int r + 2\<close> assms
      by (simp add: planStep_def Let_def validDivisors_eq [OF assms] floorDiv_def)
  next
    case False
    then show ?thesis
      using \<open>c < int r + 2\<close> assms last_is_self [OF False]
      by (simp add: planStep_def Let_def validDivisors_eq [OF assms] floorDiv_def)
  qed
  then show ?thesis using True assms by (simp add: largest_is_self)
next
  case False
  then have "planStep r (Some c) = (int r + 2, Some (c + c div (int r + 2)))"
    by (simp add: planStep_def Let_def floorDiv_def add.commute)
  then show ?thesis using False by simp
qed

lemma countAt_pos:
  assumes "1 \<le> n"
  shows "\<exists>c. countAt n r = Some c \<and> 1 \<le> c"
proof (induction r)
  case 0
  then show ?case using assms by simp
next
  case (Suc r)
  then obtain c where c: "countAt n r = Some c" "1 \<le> c" by auto
  from planStep_pos [OF c(2), of r] obtain k where
    k: "planStep r (Some c) = (k, Some (c + c div k))" "1 \<le> k" by auto
  have "0 \<le> c div k" using c(2) k(2) by (simp add: pos_imp_zdiv_nonneg_iff)
  then show ?case using c k by simp
qed

lemma planLoop_eq:
  assumes "length acc = r" "c = countAt n r"
  shows "planLoop t r c acc
           = acc @ map (\<lambda>j. Num (fst (planStep j (countAt n j))))
                     [r..<(case t of None \<Rightarrow> 0 | Some m \<Rightarrow> nat (m - 1))]"
  using assms
proof (induction t r c acc rule: planLoop.induct)
  case (1 t r c acc)
  let ?m = "case t of None \<Rightarrow> 0 | Some m \<Rightarrow> nat (m - 1)"
  have guard: "lessNum (int r) (minusOne t) \<longleftrightarrow> r < ?m"
    by (auto simp: lessNum_def minusOne_def split: option.splits)
  show ?case
  proof (cases "lessNum (int r) (minusOne t)")
    case True
    obtain k c' where st: "planStep r c = (k, c')" by (cases "planStep r c") auto
    have c': "c' = countAt n (r + 1)" using st "1.prems"(2) by simp
    have len: "length (jsSet acc r (Num k)) = r + 1"
      using "1.prems"(1) by (simp add: jsSet_def)
    have "planLoop t r c acc = planLoop t (r + 1) c' (jsSet acc r (Num k))"
      using True st by (subst planLoop.simps) simp
    also have "\<dots> = jsSet acc r (Num k)
                 @ map (\<lambda>j. Num (fst (planStep j (countAt n j)))) [r + 1..<?m]"
      using "1.IH" [OF True st [symmetric] len c'] .
    also have "jsSet acc r (Num k) = acc @ [Num (fst (planStep r (countAt n r)))]"
      using "1.prems" st by (simp add: jsSet_def)
    also have "(acc @ [Num (fst (planStep r (countAt n r)))])
                 @ map (\<lambda>j. Num (fst (planStep j (countAt n j)))) [r + 1..<?m]
             = acc @ map (\<lambda>j. Num (fst (planStep j (countAt n j)))) [r..<?m]"
    proof -
      have "r < ?m" using True guard by simp
      then have "[r..<?m] = r # [r + 1..<?m]"
        by (simp add: upt_conv_Cons)
      then show ?thesis by simp
    qed
    finally show ?thesis .
  next
    case False
    then have "planLoop t r c acc = acc" by (subst planLoop.simps) simp
    moreover have "[r..<?m] = []" using False guard by simp
    ultimately show ?thesis by simp
  qed
qed

text \<open>
  Claim C4. From an initial cell count of at least 1 the planner writes one interval per
  transition. With \<open>c\<close> the current cell count at transition \<open>r\<close>, the interval is
  \<open>r + 2\<close>, unless \<open>r + 2\<close> exceeds \<open>c\<close>, when it is the largest divisor of \<open>c\<close>
  greater than 1 (\<open>c\<close> itself when there is none); it is at least 1 and at most \<open>c\<close>, and
  the next count is \<open>c + floor(c / interval)\<close>.
\<close>

theorem initializeExpansionIntervals_bounds:
  assumes "initialCellCount s = Some n" "1 \<le> n"
  shows "let intervals = expansionIntervals (initializeExpansionIntervals s)
         in int (length intervals)
              = (case numRings s of None \<Rightarrow> 0 | Some t \<Rightarrow> max 0 (t - 1)) \<and>
            (\<forall>r < length intervals.
               \<exists>c k. countAt n r = Some c \<and>
                     intervals ! r = Num k \<and>
                     k = (if c < int r + 2 then largestDivisorOrSelf c else int r + 2) \<and>
                     1 \<le> k \<and> k \<le> c \<and>
                     countAt n (Suc r) = Some (c + c div k))"
proof -
  let ?m = "case numRings s of None \<Rightarrow> 0 | Some m \<Rightarrow> nat (m - 1)"
  let ?ivs = "map (\<lambda>j. Num (fst (planStep j (countAt n j)))) [0..<?m]"
  have e: "expansionIntervals (initializeExpansionIntervals s) = ?ivs"
    using planLoop_eq [of "[]" 0 "Some n" n "numRings s"] assms(1)
    by (simp add: initializeExpansionIntervals_def)
  have len: "int (length ?ivs) = (case numRings s of None \<Rightarrow> 0 | Some t \<Rightarrow> max 0 (t - 1))"
    by (simp split: option.splits)
  have each: "\<forall>r < length ?ivs.
               \<exists>c k. countAt n r = Some c \<and> ?ivs ! r = Num k \<and>
                     k = (if c < int r + 2 then largestDivisorOrSelf c else int r + 2) \<and>
                     1 \<le> k \<and> k \<le> c \<and> countAt n (Suc r) = Some (c + c div k)"
  proof (intro allI impI)
    fix r assume r: "r < length ?ivs"
    from countAt_pos [OF assms(2), of r] obtain c where c: "countAt n r = Some c" "1 \<le> c"
      by auto
    from planStep_pos [OF c(2), of r] obtain k where
      k: "planStep r (Some c) = (k, Some (c + c div k))"
         "k = (if c < int r + 2 then largestDivisorOrSelf c else int r + 2)" "1 \<le> k" "k \<le> c"
      by auto
    have "?ivs ! r = Num k" using r c k(1) by simp
    moreover have "countAt n (Suc r) = Some (c + c div k)" using c k(1) by simp
    ultimately show "\<exists>c k. countAt n r = Some c \<and> ?ivs ! r = Num k \<and>
                     k = (if c < int r + 2 then largestDivisorOrSelf c else int r + 2) \<and>
                     1 \<le> k \<and> k \<le> c \<and> countAt n (Suc r) = Some (c + c div k)"
      using c k by blast
  qed
  show ?thesis unfolding Let_def e using len each by blast
qed

text \<open>
  Starting from one cell every transition falls back: the intervals are 1, 2, 3.
\<close>

theorem initializeExpansionIntervals_bounds_witness:
  "let s = \<lparr>initialCellCount = Some 1, numRings = Some 4,
              ruleset = [Num 0, Num 1, Num 0, Num 1, Num 1, Num 0, Num 1, Num 0],
              initialPattern = [Num 1], rings = [], expansionMap = [], currentRing = 0,
              expansionIntervals = []\<rparr>
   in initialCellCount s = Some 1 \<and> (1::int) \<le> 1 \<and>
      int (length (expansionIntervals (initializeExpansionIntervals s))) = 3 \<and>
      expansionIntervals (initializeExpansionIntervals s) = [Num 1, Num 2, Num 3]"
proof -
  let ?s = "\<lparr>initialCellCount = Some 1, numRings = Some 4,
              ruleset = [Num 0, Num 1, Num 0, Num 1, Num 1, Num 0, Num 1, Num 0],
              initialPattern = [Num 1], rings = [], expansionMap = [], currentRing = 0,
              expansionIntervals = []\<rparr>"
  have h: "initialCellCount ?s = Some 1" by simp
  have h1: "(1::int) \<le> 1" by simp
  have "int (length (expansionIntervals (initializeExpansionIntervals ?s)))
          = (case numRings ?s of None \<Rightarrow> 0 | Some t \<Rightarrow> max 0 (t - 1))"
    using initializeExpansionIntervals_bounds [OF h h1] unfolding Let_def by (rule conjunct1)
  then have a: "int (length (expansionIntervals (initializeExpansionIntervals ?s))) = 3"
    by simp
  have b: "expansionIntervals (initializeExpansionIntervals ?s) = [Num 1, Num 2, Num 3]"
    by code_simp
  from h h1 a b show ?thesis unfolding Let_def by blast
qed

section \<open>Initialisation, restart and complete runs\<close>

lemma grown_count_nonneg:
  fixes p k :: int
  assumes "0 \<le> p" "k \<noteq> 0"
  shows "0 \<le> p + p div k"
proof (cases "0 < k")
  case True
  then have "0 \<le> p div k" using assms(1) by (simp add: pos_imp_zdiv_nonneg_iff)
  then show ?thesis using assms(1) by simp
next
  case False
  then have m: "1 \<le> - k" using assms(2) by simp
  have "- p \<le> (- p) div (- k)"
  proof (cases "p = 0")
    case True
    then show ?thesis by simp
  next
    case False
    then have "- p < 0" using assms(1) by simp
    then have "(- p) div 1 \<le> (- p) div (- k)"
      using m by (intro zdiv_mono2_neg) simp_all
    then show ?thesis by simp
  qed
  then have "- p \<le> p div k" by (simp only: div_minus_minus)
  then show ?thesis by simp
qed

lemma ringStructure_ok:
  assumes "k \<noteq> 0"
  shows "\<exists>cells marks. ringStructure p k = Inr (cells, marks)"
proof -
  have "0 \<le> int p + int p div k" using assms by (intro grown_count_nonneg) simp_all
  then show ?thesis
    using assms by (simp add: ringStructure_def floorDiv_def newArray_def bindE_def Let_def)
qed

lemma structureLoop_ok:
  assumes "\<forall>r p. \<exists>k. f r p = Some k \<and> k \<noteq> 0" "length rings0 = r" "length emap = r"
  shows "\<exists>rs em. structureLoop t f r rings0 emap = Inr (rs, em) \<and>
                 (\<exists>ext. rs = rings0 @ ext) \<and> (\<exists>ext. em = emap @ ext) \<and>
                 length em = length rs \<and> (\<forall>n. t = Some n \<longrightarrow> n \<le> int (length rs))"
  using assms
proof (induction t f r rings0 emap rule: structureLoop.induct)
  case (1 t f r rings0 emap)
  show ?case
  proof (cases "lessNum (int r) t")
    case True
    let ?p = "length (rings0 ! (r - 1))"
    obtain k where k: "f r ?p = Some k" "k \<noteq> 0" using "1.prems"(1) by blast
    then obtain cells marks where rs: "ringStructureOf ?p (f r ?p) = Inr (cells, marks)"
      using ringStructure_ok [of k ?p] by (auto simp: ringStructureOf_def)
    have unf: "structureLoop t f r rings0 emap
                 = structureLoop t f (r + 1) (rings0 @ [cells]) (emap @ [marks])"
      using True rs by (subst structureLoop.simps) (simp add: Let_def)
    have l: "length (rings0 @ [cells]) = r + 1" "length (emap @ [marks]) = r + 1"
      using "1.prems"(2,3) by simp_all
    from "1.IH" [OF True refl rs refl "1.prems"(1) l]
    obtain rs' em' where
      "structureLoop t f (r + 1) (rings0 @ [cells]) (emap @ [marks]) = Inr (rs', em')"
      "\<exists>ext. rs' = (rings0 @ [cells]) @ ext" "\<exists>ext. em' = (emap @ [marks]) @ ext"
      "length em' = length rs'" "\<forall>n. t = Some n \<longrightarrow> n \<le> int (length rs')"
      by blast
    then show ?thesis unfolding unf by auto
  next
    case False
    then have "structureLoop t f r rings0 emap = Inr (rings0, emap)"
      by (subst structureLoop.simps) simp
    moreover have "\<forall>n. t = Some n \<longrightarrow> n \<le> int (length rings0)"
      using False "1.prems"(2) by (auto simp: lessNum_def)
    ultimately show ?thesis using "1.prems"(2,3) by simp
  qed
qed

lemma reset_eq:
  assumes "sameParameters s1 s2"
  shows "s1\<lparr>currentRing := c, rings := rs, expansionMap := em\<rparr>
           = s2\<lparr>currentRing := c, rings := rs, expansionMap := em\<rparr>"
  using assms by (cases s1, cases s2) (simp add: sameParameters_def)

lemma startRings_same:
  assumes "sameParameters s1 s2"
  shows "startRings s1 = startRings s2"
  using assms
  by (cases "initialCellCount s2")
     (simp_all add: startRings_def sameParameters_def reset_eq [OF assms])

lemma initializeSimulation_same:
  assumes "sameParameters s1 s2"
  shows "initializeSimulation s1 = initializeSimulation s2"
  by (simp add: initializeSimulation_def startRings_same [OF assms])

lemma generateNextRing_params:
  "generateNextRing k s = Inr s' \<Longrightarrow> sameParameters s' s"
  by (auto simp: generateNextRing_def sameParameters_def Let_def split: if_splits)

lemma draw_params:
  "draw s = Inr s' \<Longrightarrow> sameParameters s' s"
  by (auto simp: draw_def bindE_def sameParameters_def
      split: if_splits sum.splits dest!: generateNextRing_params)

lemma sameParameters_trans:
  "sameParameters a b \<Longrightarrow> sameParameters b c \<Longrightarrow> sameParameters a c"
  by (simp add: sameParameters_def)

lemma drawLoop_params:
  "drawLoop s = Inr s' \<Longrightarrow> sameParameters s' s"
proof (induction s arbitrary: s' rule: drawLoop.induct)
  case (1 s)
  show ?case
  proof (cases "geNum (int (currentRing s)) (numRings s)")
    case True
    then have "drawLoop s = draw s" by (subst drawLoop.simps) simp
    then show ?thesis using "1.prems" draw_params by metis
  next
    case False
    then obtain s1 where d: "draw s = Inr s1" and l: "drawLoop s1 = Inr s'"
      using "1.prems" by (subst (asm) drawLoop.simps) (auto split: sum.splits)
    have "sameParameters s' s1" using "1.IH" [OF False d l] .
    then show ?thesis using draw_params [OF d] sameParameters_trans by blast
  qed
qed

lemma startRings_params:
  "startRings s = Inr s0 \<Longrightarrow> sameParameters s0 s"
  by (auto simp: startRings_def bindE_def sameParameters_def split: option.splits sum.splits)

lemma initializeSimulation_params:
  "initializeSimulation s = Inr s' \<Longrightarrow> sameParameters s' s"
  by (auto simp: initializeSimulation_def bindE_def sameParameters_def
      split: sum.splits dest!: startRings_params)

lemma simulate_params:
  assumes "simulate s = Inr s'"
  shows "sameParameters s' s"
proof -
  from assms obtain s1 where i: "initializeSimulation s = Inr s1" and l: "drawLoop s1 = Inr s'"
    by (auto simp: simulate_def bindE_def split: sum.splits)
  show ?thesis
    using initializeSimulation_params [OF i] drawLoop_params [OF l] sameParameters_trans
    by blast
qed

lemma simulate_same: "sameParameters s1 s2 \<Longrightarrow> simulate s1 = simulate s2"
  by (simp add: simulate_def initializeSimulation_same)

lemma plan_same:
  assumes "sameParameters s1 s2"
  shows "sameParameters (initializeExpansionIntervals s1) (initializeExpansionIntervals s2)"
  using assms by (cases s1, cases s2) (simp add: sameParameters_def initializeExpansionIntervals_def)

lemma initializeSimulationV_same:
  assumes "sameParameters s1 s2"
  shows "initializeSimulationV s1 = initializeSimulationV s2"
proof -
  have e: "expansionIntervals s1 = expansionIntervals s2"
    using assms by (cases s1, cases s2) (simp add: sameParameters_def)
  let ?p1 = "if length (expansionIntervals s1) = 0 then initializeExpansionIntervals s1 else s1"
  let ?p2 = "if length (expansionIntervals s2) = 0 then initializeExpansionIntervals s2 else s2"
  have p: "sameParameters ?p1 ?p2" using assms e plan_same [OF assms] by simp
  have "initializeSimulationV s1 =
      bindE (startRings ?p1) (\<lambda>s1.
         bindE (structureLoop (numRings s1)
                  (\<lambda>r prevCount.
                     Some (intervalOr (jsGet (expansionIntervals s1) (int r - 1)) (int prevCount)))
                  1 (rings s1) (expansionMap s1)) (\<lambda>(rs, em).
         Inr (s1\<lparr>rings := rs, expansionMap := em\<rparr>)))"
    by (simp add: initializeSimulationV_def Let_def)
  also have "\<dots> =
      bindE (startRings ?p2) (\<lambda>s1.
         bindE (structureLoop (numRings s1)
                  (\<lambda>r prevCount.
                     Some (intervalOr (jsGet (expansionIntervals s1) (int r - 1)) (int prevCount)))
                  1 (rings s1) (expansionMap s1)) (\<lambda>(rs, em).
         Inr (s1\<lparr>rings := rs, expansionMap := em\<rparr>)))"
    by (simp only: startRings_same [OF p])
  also have "\<dots> = initializeSimulationV s2"
    by (simp add: initializeSimulationV_def Let_def)
  finally show ?thesis .
qed

lemma simulateV_same: "sameParameters s1 s2 \<Longrightarrow> simulateV s1 = simulateV s2"
  by (simp add: simulateV_def initializeSimulationV_same)

lemma planned_fixpoint:
  "initializeSimulationV (if length (expansionIntervals s) = 0 then initializeExpansionIntervals s else s)
     = initializeSimulationV s"
proof (cases "length (expansionIntervals s) = 0")
  case False
  then show ?thesis by simp
next
  case True
  let ?p = "initializeExpansionIntervals s"
  have again: "initializeExpansionIntervals ?p = ?p"
    by (cases s) (simp add: initializeExpansionIntervals_def)
  have "initializeSimulationV ?p = initializeSimulationV s"
    using True again by (simp add: initializeSimulationV_def Let_def)
  then show ?thesis using True by simp
qed

lemma initializeSimulationV_params:
  assumes "initializeSimulationV s = Inr s'"
  shows "sameParameters s'
           (if length (expansionIntervals s) = 0 then initializeExpansionIntervals s else s)"
proof -
  let ?p = "if length (expansionIntervals s) = 0 then initializeExpansionIntervals s else s"
  from assms obtain s1 rs em where 1: "startRings ?p = Inr s1"
    and 2: "s' = s1\<lparr>rings := rs, expansionMap := em\<rparr>"
    by (auto simp: initializeSimulationV_def bindE_def Let_def split: sum.splits if_splits)
  have "sameParameters s1 ?p" using 1 by (rule startRings_params)
  then show ?thesis using 2 by (simp add: sameParameters_def)
qed

lemma simulateV_idem:
  assumes "simulateV s = Inr s'"
  shows "simulateV s' = Inr s'"
proof -
  let ?p = "if length (expansionIntervals s) = 0 then initializeExpansionIntervals s else s"
  from assms obtain s1 where i: "initializeSimulationV s = Inr s1" and l: "drawLoop s1 = Inr s'"
    by (auto simp: simulateV_def bindE_def split: sum.splits)
  have "sameParameters s' ?p"
    using initializeSimulationV_params [OF i] drawLoop_params [OF l] sameParameters_trans
    by blast
  then have "simulateV s' = simulateV ?p" by (rule simulateV_same)
  also have "\<dots> = simulateV s" by (simp only: simulateV_def planned_fixpoint)
  finally show ?thesis using assms by simp
qed

lemma simulate_idem:
  assumes "simulate s = Inr s'"
  shows "simulate s' = Inr s'"
  using simulate_same [OF simulate_params [OF assms]] assms by simp

lemma newArray_ok: "0 \<le> n \<Longrightarrow> newArray n v = Inr (replicate (nat n) v)"
  by (simp add: newArray_def)

lemma startRings_ok:
  assumes "initialCellCount s = Some n" "0 \<le> n"
  shows "startRings s = Inr (s\<lparr>currentRing := 0, rings := [firstRing (initialPattern s) n],
                               expansionMap := [replicate (nat n) False]\<rparr>)"
  using assms by (simp add: startRings_def newArray_ok bindE_def)

lemma initializeSimulation_ok:
  assumes "expansionInterval s = Some k" "k \<noteq> 0" "initialCellCount s = Some n" "0 \<le> n"
  shows "\<exists>s'. initializeSimulation s = Inr s' \<and> sameParameters s' s \<and>
              rings s' \<noteq> [] \<and> rings s' ! 0 = firstRing (initialPattern s) n \<and>
              currentRing s' = 0 \<and> length (expansionMap s') = length (rings s') \<and>
              (\<forall>t. numRings s = Some t \<longrightarrow> t \<le> int (length (rings s')))"
proof -
  let ?ring0 = "firstRing (initialPattern s) n"
  let ?m0 = "replicate (nat n) False"
  let ?s0 = "s\<lparr>currentRing := 0, rings := [?ring0], expansionMap := [?m0]\<rparr>"
  have st: "startRings s = Inr ?s0" using assms(3,4) by (rule startRings_ok)
  have f: "\<forall>r p. \<exists>j. (\<lambda>r prevCount. expansionInterval ?s0) r p = Some j \<and> j \<noteq> 0"
    using assms(1,2) by simp
  from structureLoop_ok [OF f, of "[?ring0]" 1 "[?m0]" "numRings ?s0"]
  obtain rs em ext where l: "structureLoop (numRings ?s0) (\<lambda>r prevCount. expansionInterval ?s0) 1
      [?ring0] [?m0] = Inr (rs, em)" "rs = [?ring0] @ ext" "length em = length rs"
      "\<forall>t. numRings ?s0 = Some t \<longrightarrow> t \<le> int (length rs)"
    by auto
  have "initializeSimulation s = Inr (?s0\<lparr>rings := rs, expansionMap := em\<rparr>)"
    using l(1) by (simp add: initializeSimulation_def st bindE_def)
  then show ?thesis using l(2,3,4) by (simp add: sameParameters_def)
qed







lemma restart_ok:
  assumes "parseInt (ctlExpansionInterval c) = Some k" "k \<noteq> 0"
    "parseInt (ctlInitialCellCount c) = Some n" "0 \<le> n"
  shows "\<exists>s'. restartSimulation c s = Inr s' \<and> sameParameters s' (readControls c s) \<and>
              rings s' \<noteq> [] \<and>
              rings s' ! 0 = firstRing (initialPattern (readControls c s)) n \<and>
              currentRing s' = 0 \<and> length (expansionMap s') = length (rings s') \<and>
              (\<forall>t. parseInt (ctlNumRings c) = Some t \<longrightarrow> t \<le> int (length (rings s')))"
proof -
  have h: "expansionInterval (readControls c s) = Some k"
    "initialCellCount (readControls c s) = Some n"
    using assms by (simp_all add: readControls_def)
  have r: "numRings (readControls c s) = parseInt (ctlNumRings c)"
    by (simp add: readControls_def)
  from initializeSimulation_ok [OF h(1) assms(2) h(2) assms(4)] show ?thesis
    unfolding restartSimulation_def r by blast
qed





lemma sameParameters_ruleset: "sameParameters s' s \<Longrightarrow> ruleset s' = ruleset s"
  by (simp add: sameParameters_def)

lemma initializeSimulationV_ruleset:
  assumes "initializeSimulationV s = Inr s'"
  shows "ruleset s' = ruleset s"
proof -
  have "ruleset s' = ruleset (if length (expansionIntervals s) = 0
                              then initializeExpansionIntervals s else s)"
    using initializeSimulationV_params [OF assms] by (rule sameParameters_ruleset)
  then show ?thesis by (simp add: initializeExpansionIntervals_def)
qed

text \<open>
  Claim C8. Reading the controls leaves the ruleset unchanged when the text does not have
  exactly 8 characters and replaces it by the parsed characters, all 8 of them, when it
  has; a ruleset of 8 entries stays one of 8 entries; the ruleset of the restarted state is
  the one read; and no text for the ruleset makes the restart fail.
\<close>

theorem restartSimulation_ruleset:
  "ruleset (readControls c s)
     = (if length (ctlRuleset c) = 8
        then map (\<lambda>bit. numOf (parseInt [bit])) (ctlRuleset c) else ruleset s) \<and>
   ruleset (readControlsV c v)
     = (if length (ctlRuleset c) = 8
        then map (\<lambda>bit. numOf (parseInt [bit])) (ctlRuleset c) else ruleset v) \<and>
   (length (ruleset s) = 8 \<longrightarrow> length (ruleset (readControls c s)) = 8) \<and>
   (\<forall>s'. restartSimulation c s = Inr s' \<longrightarrow> ruleset s' = ruleset (readControls c s)) \<and>
   (\<forall>v'. restartSimulationV c v = Inr v' \<longrightarrow> ruleset v' = ruleset (readControlsV c v)) \<and>
   (parseInt (ctlExpansionInterval c) = Some k \<and> k \<noteq> 0 \<and>
    parseInt (ctlInitialCellCount c) = Some n \<and> 0 \<le> n \<longrightarrow>
      (\<exists>s'. restartSimulation c s = Inr s' \<and> ruleset s' = ruleset (readControls c s)))"
proof -
  have 1: "ruleset (readControls c s)
     = (if length (ctlRuleset c) = 8
        then map (\<lambda>bit. numOf (parseInt [bit])) (ctlRuleset c) else ruleset s)"
    by (simp add: readControls_def readRuleset_def)
  have 2: "ruleset (readControlsV c v)
     = (if length (ctlRuleset c) = 8
        then map (\<lambda>bit. numOf (parseInt [bit])) (ctlRuleset c) else ruleset v)"
    by (simp add: readControlsV_def readRuleset_def)
  have 3: "length (ruleset s) = 8 \<longrightarrow> length (ruleset (readControls c s)) = 8"
    unfolding 1 by simp
  have 4: "\<forall>s'. restartSimulation c s = Inr s' \<longrightarrow> ruleset s' = ruleset (readControls c s)"
    unfolding restartSimulation_def
    using initializeSimulation_params sameParameters_ruleset by blast
  have 5: "\<forall>v'. restartSimulationV c v = Inr v' \<longrightarrow> ruleset v' = ruleset (readControlsV c v)"
    unfolding restartSimulationV_def using initializeSimulationV_ruleset by blast
  have 6: "parseInt (ctlExpansionInterval c) = Some k \<and> k \<noteq> 0 \<and>
    parseInt (ctlInitialCellCount c) = Some n \<and> 0 \<le> n \<longrightarrow>
      (\<exists>s'. restartSimulation c s = Inr s' \<and> ruleset s' = ruleset (readControls c s))"
    using restart_ok [of c k n s] sameParameters_ruleset by blast
  from 1 2 3 4 5 6 show ?thesis by blast
qed














lemma fields_sameParameters:
  fixes s1 s2 :: simC
  assumes "initialCellCount s1 = initialCellCount s2" "numRings s1 = numRings s2"
    "expansionInterval s1 = expansionInterval s2" "ruleset s1 = ruleset s2"
    "initialPattern s1 = initialPattern s2"
  shows "sameParameters s1 s2"
  using assms by (cases s1, cases s2) (simp add: sameParameters_def)

lemma fields_sameParametersV:
  fixes s1 s2 :: simV
  assumes "initialCellCount s1 = initialCellCount s2" "numRings s1 = numRings s2"
    "expansionIntervals s1 = expansionIntervals s2" "ruleset s1 = ruleset s2"
    "initialPattern s1 = initialPattern s2"
  shows "sameParameters s1 s2"
  using assms by (cases s1, cases s2) (simp add: sameParameters_def)

text \<open>
  Claim C6. A complete run (\<open>initializeSimulation\<close>, then the frames until the last ring)
  depends on the parameters only: two states with the same initial cell count, number of
  rings, interval (or interval array), ruleset and initial pattern give the same result,
  whatever their \<open>rings\<close>, \<open>expansionMap\<close> and \<open>currentRing\<close> held before; and a run
  started from the final state of a run ends in that same state. Both hold for both versions.
\<close>

theorem simulate_deterministic:
  "(initialCellCount s1 = initialCellCount s2 \<and> numRings s1 = numRings s2 \<and>
    expansionInterval s1 = expansionInterval s2 \<and> ruleset s1 = ruleset s2 \<and>
    initialPattern s1 = initialPattern s2 \<longrightarrow> simulate s1 = simulate s2) \<and>
   (initialCellCount v1 = initialCellCount v2 \<and> numRings v1 = numRings v2 \<and>
    expansionIntervals v1 = expansionIntervals v2 \<and> ruleset v1 = ruleset v2 \<and>
    initialPattern v1 = initialPattern v2 \<longrightarrow> simulateV v1 = simulateV v2) \<and>
   (simulate s1 = Inr s' \<longrightarrow> simulate s' = Inr s') \<and>
   (simulateV v1 = Inr v' \<longrightarrow> simulateV v' = Inr v')"
  using simulate_same [OF fields_sameParameters, of s1 s2]
    simulateV_same [OF fields_sameParametersV, of v1 v2]
    simulate_idem [of s1 s'] simulateV_idem [of v1 v'] by blast

text \<open>
  Three rings, started once from the fresh state and once from a state that holds rings of
  an earlier run.
\<close>

theorem simulate_deterministic_witness:
  "simulate (sketch\<lparr>numRings := Some 3\<rparr>)
     = simulate (sketch\<lparr>numRings := Some 3, rings := [[Num 1]], expansionMap := [[True]],
                         currentRing := 7\<rparr>) \<and>
   simulateV (sketchV\<lparr>numRings := Some 3\<rparr>)
     = simulateV (sketchV\<lparr>numRings := Some 3, rings := [[Num 1]], expansionMap := [[True]],
                         currentRing := 7\<rparr>) \<and>
   simulate (sketch\<lparr>numRings := Some 3\<rparr>)
     = Inr (projr (simulate (sketch\<lparr>numRings := Some 3\<rparr>))) \<and>
   simulate (projr (simulate (sketch\<lparr>numRings := Some 3\<rparr>)))
     = Inr (projr (simulate (sketch\<lparr>numRings := Some 3\<rparr>))) \<and>
   simulateV (sketchV\<lparr>numRings := Some 3\<rparr>)
     = Inr (projr (simulateV (sketchV\<lparr>numRings := Some 3\<rparr>))) \<and>
   simulateV (projr (simulateV (sketchV\<lparr>numRings := Some 3\<rparr>)))
     = Inr (projr (simulateV (sketchV\<lparr>numRings := Some 3\<rparr>)))"
proof -
  let ?a = "sketch\<lparr>numRings := Some 3\<rparr>"
  let ?b = "sketch\<lparr>numRings := Some 3, rings := [[Num 1]], expansionMap := [[True]], currentRing := 7\<rparr>"
  let ?va = "sketchV\<lparr>numRings := Some 3\<rparr>"
  let ?vb = "sketchV\<lparr>numRings := Some 3, rings := [[Num 1]], expansionMap := [[True]], currentRing := 7\<rparr>"
  note t = simulate_deterministic [of ?a ?b ?va ?vb "projr (simulate ?a)" "projr (simulateV ?va)"]
  have pa: "initialCellCount ?a = initialCellCount ?b \<and> numRings ?a = numRings ?b \<and>
    expansionInterval ?a = expansionInterval ?b \<and> ruleset ?a = ruleset ?b \<and>
    initialPattern ?a = initialPattern ?b" by simp
  have pv: "initialCellCount ?va = initialCellCount ?vb \<and> numRings ?va = numRings ?vb \<and>
    expansionIntervals ?va = expansionIntervals ?vb \<and> ruleset ?va = ruleset ?vb \<and>
    initialPattern ?va = initialPattern ?vb" by simp
  have "\<not> isl (simulate ?a)" by code_simp
  then have ra: "simulate ?a = Inr (projr (simulate ?a))" by simp
  have "\<not> isl (simulateV ?va)" by code_simp
  then have rv: "simulateV ?va = Inr (projr (simulateV ?va))" by simp
  from t pa pv ra rv show ?thesis by blast
qed

text \<open>A text of 7 characters is ignored, one of 8 replaces the ruleset.\<close>

theorem restartSimulation_ruleset_witness:
  "length (ruleset sketch) = 8 \<and>
   parseInt (ctlExpansionInterval \<lparr>ctlInitialCellCount = ''4'', ctlNumRings = ''2'',
      ctlExpansionInterval = ''2'', ctlDropdowns = [], ctlRuleset = ''0001111'',
      ctlInitialPattern = ''1,0,1,0''\<rparr>) = Some 2 \<and> (2::int) \<noteq> 0 \<and>
   parseInt (ctlInitialCellCount \<lparr>ctlInitialCellCount = ''4'', ctlNumRings = ''2'',
      ctlExpansionInterval = ''2'', ctlDropdowns = [], ctlRuleset = ''0001111'',
      ctlInitialPattern = ''1,0,1,0''\<rparr>) = Some 4 \<and> (0::int) \<le> 4 \<and>
   (\<exists>s'. restartSimulation \<lparr>ctlInitialCellCount = ''4'', ctlNumRings = ''2'',
      ctlExpansionInterval = ''2'', ctlDropdowns = [], ctlRuleset = ''0001111'',
      ctlInitialPattern = ''1,0,1,0''\<rparr> sketch = Inr s'
      \<and> ruleset s' = ruleset sketch) \<and>
   ruleset (readControls \<lparr>ctlInitialCellCount = ''4'', ctlNumRings = ''2'',
      ctlExpansionInterval = ''2'', ctlDropdowns = [], ctlRuleset = ''00011110'',
      ctlInitialPattern = ''1,0,1,0''\<rparr> sketch)
     = [Num 0, Num 0, Num 0, Num 1, Num 1, Num 1, Num 1, Num 0]"
proof -
  let ?c7 = "\<lparr>ctlInitialCellCount = ''4'', ctlNumRings = ''2'',
      ctlExpansionInterval = ''2'', ctlDropdowns = [], ctlRuleset = ''0001111'',
      ctlInitialPattern = ''1,0,1,0''\<rparr>"
  let ?c8 = "\<lparr>ctlInitialCellCount = ''4'', ctlNumRings = ''2'',
      ctlExpansionInterval = ''2'', ctlDropdowns = [], ctlRuleset = ''00011110'',
      ctlInitialPattern = ''1,0,1,0''\<rparr>"
  have h1: "length (ruleset sketch) = 8" by (simp add: sketch_def)
  have h2: "parseInt (ctlExpansionInterval ?c7) = Some 2" by code_simp
  have h3: "(2::int) \<noteq> 0" by simp
  have h4: "parseInt (ctlInitialCellCount ?c7) = Some 4" by code_simp
  have h5: "(0::int) \<le> 4" by simp
  note t7 = restartSimulation_ruleset [of ?c7 sketch sketchV 2 4]
  note t8 = restartSimulation_ruleset [of ?c8 sketch sketchV 2 4]
  have k: "ruleset (readControls ?c7 sketch) = ruleset sketch"
    using t7 by simp
  have a: "\<exists>s'. restartSimulation ?c7 sketch = Inr s' \<and> ruleset s' = ruleset sketch"
    using t7 h2 h3 h4 h5 unfolding k by blast
  have p: "map (\<lambda>bit. numOf (parseInt [bit])) ''00011110''
             = [Num 0, Num 0, Num 0, Num 1, Num 1, Num 1, Num 1, Num 0]"
    by code_simp
  have b: "ruleset (readControls ?c8 sketch)
     = [Num 0, Num 0, Num 0, Num 1, Num 1, Num 1, Num 1, Num 0]"
    using t8 p by simp
  from h1 h2 h3 h4 h5 a b show ?thesis by blast
qed

end
